theory Spec2Isabelle
  imports Main "HOL-Library.Word"
begin

section \<open>The service lifecycle coordinator of \<open>service.go\<close>\<close>

text \<open>
  The package keeps its whole state in package-level variables. The model gathers them in
  one record that every function takes and returns. The variables that no function of the
  file reads or writes are left out: \<open>doneChan\<close>, and the variables that \<open>init\<close> hands to
  the \<open>flag\<close> package. \<open>connMutex\<close> is not a field either: it makes the counter's
  operations atomic steps. Go's \<open>int\<close> is taken at its width on 64-bit platforms, a
  two's complement \<open>64 word\<close>, with \<open>+\<close> wrapping around, \<open>sint\<close> reading it and \<open><s\<close>,
  \<open><=s\<close> comparing it.

  What a function does to the outside world (system calls, the log, calls of a callback,
  a read of the shared counter) is appended to the field \<open>trace\<close>, oldest event first.
\<close>

type_synonym go_int = "64 word"

text \<open>A function value. \<open>None\<close> of type \<open>hook option\<close> is Go's \<open>nil\<close>.\<close>

type_synonym hook = nat

text \<open>
  A listener is known by what it was made from: the inherited descriptor handed to
  \<open>net.FileListener\<close>, or the address handed to \<open>net.Listen\<close>.
\<close>

datatype listener = FdListener go_int | AddrListener string

text \<open>The lines the package writes to the log, with the values they are formatted from.\<close>

datatype logline =
    LogParsed go_int string string
  | LogArgs string
  | LogLookupError string string
  | LogInvalidGid string string
  | LogSetgidError string
  | LogSetgidOk
  | LogInvalidUid string string
  | LogSetuidError string
  | LogSetuidOk
  | LogChrootError string string
  | LogChrootOk string
  | LogChdirError string
  | LogChdirOk
  | LogFileListenerError string go_int
  | LogAddFd go_int
  | LogFileConnError string
  | LogWaiting
  | LogDisconnected string
  | LogClosingListener
  | LogExiting go_int go_int
  | LogWaitingTooLong go_int
  | LogExitingNow

datatype event =
    Log logline
  | PrintOpenFileError string string
  | ReadArgs
  | InitConfig string
  | ConfGet string
  | OpenFile string
  | SetLogOutput string
  | UserLookup string
  | Setgid go_int
  | Setuid go_int
  | Chroot string
  | Chdir string
  | NetListen string
  | NewFile go_int
  | FileListener go_int
  | FileClose go_int
  | FileConn go_int
  | ConnRead
  | StoreStopping bool
  | CallOnStop hook
  | ListenerClose listener
  | ReadConnCount go_int
  | Sleep
  | CallStop hook bool

record state =
  listenFdCount :: go_int
  confPath :: string
  sockType :: string
  services :: string
  privilege :: bool
  verbose :: bool
  chrootOn :: bool
  preJailHandler :: "hook option"
  initHandler :: "hook option"
  exitHandler :: "hook option"
  connCount :: go_int
  stopping :: bool
  waitExit :: go_int
  prepareCalled :: bool
  logPath :: string
  username :: string
  masterArgs :: string
  rootDir :: string
  trace :: "event list"

definition stateFd :: go_int where
  "stateFd = 5"

definition listenFdStart :: go_int where
  "listenFdStart = 6"

text \<open>The values of the package's \<open>var\<close> blocks when the process starts.\<close>

definition init_state :: state where
  "init_state = \<lparr>
     listenFdCount = 1, confPath = [], sockType = [], services = [],
     privilege = False, verbose = False, chrootOn = False,
     preJailHandler = None, initHandler = None, exitHandler = None,
     connCount = 0, stopping = False, waitExit = 10, prepareCalled = False,
     logPath = [], username = [], masterArgs = [], rootDir = [],
     trace = [] \<rparr>"

definition emit :: "event \<Rightarrow> state \<Rightarrow> state" where
  "emit e s = s\<lparr>trace := trace s @ [e]\<rparr>"

subsection \<open>The connection counter\<close>

text \<open>
  \<open>connCountInc\<close>, \<open>connCountDec\<close> and \<open>connCountCur\<close> each hold \<open>connMutex\<close> for
  their whole body, so each is one atomic step on \<open>connCount\<close> and a concurrent run is a
  sequence of such steps.
\<close>

definition connCountInc :: "state \<Rightarrow> state" where
  "connCountInc s = s\<lparr>connCount := connCount s + 1\<rparr>"

definition connCountDec :: "state \<Rightarrow> state" where
  "connCountDec s = s\<lparr>connCount := connCount s - 1\<rparr>"

definition connCountCur :: "state \<Rightarrow> go_int" where
  "connCountCur s = connCount s"

datatype counter_op = Inc | Dec

fun counter_step :: "state \<Rightarrow> counter_op \<Rightarrow> state" where
  "counter_step s Inc = connCountInc s"
| "counter_step s Dec = connCountDec s"

text \<open>The serving goroutines' calls, in the order in which they took the lock.\<close>

definition counter_run :: "counter_op list \<Rightarrow> state \<Rightarrow> state" where
  "counter_run ops s = foldl counter_step s ops"

definition incs :: "counter_op list \<Rightarrow> nat" where
  "incs ops = length (filter (\<lambda>x. x = Inc) ops)"

definition decs :: "counter_op list \<Rightarrow> nat" where
  "decs ops = length (filter (\<lambda>x. x = Dec) ops)"

text \<open>
  Every decrement comes after an increment of its own: \<open>paired_from b ops\<close> runs through
  \<open>ops\<close> with \<open>b\<close> connections open and never closes one that is not open.
\<close>

fun paired_from :: "nat \<Rightarrow> counter_op list \<Rightarrow> bool" where
  "paired_from b [] = True"
| "paired_from b (Inc # ops) = paired_from (Suc b) ops"
| "paired_from b (Dec # ops) = (0 < b \<and> paired_from (b - 1) ops)"

definition paired :: "counter_op list \<Rightarrow> bool" where
  "paired ops = paired_from 0 ops"

text \<open>The snapshots a reader can see while \<open>ops\<close> run: one after every prefix.\<close>

definition snapshots :: "counter_op list \<Rightarrow> state \<Rightarrow> go_int list" where
  "snapshots ops s = map (\<lambda>k. connCountCur (counter_run (take k ops) s)) [0..<Suc (length ops)]"

subsection \<open>What the package calls\<close>

text \<open>
  The operating system, the Go library and the other goroutines are a parameter of the
  model: a record of what each call answers. An error is its message; \<open>None\<close> of type
  \<open>string option\<close> is the \<open>nil\<close> error.
  \<^item> \<open>atoi\<close> is \<open>strconv.Atoi\<close>: the value and the error it returns together.
  \<^item> \<open>confGet\<close> is the type \<open>Config\<close>, which \<open>Prepare\<close> uses and another file of the
    package declares: \<open>confGet e path key\<close> is what \<open>Get(key)\<close> answers after
    \<open>InitConfig(path)\<close>.
  \<^item> \<open>netListen\<close> answers a bind given the listeners bound before it, so that binding one
    address twice may fail the second time.
  \<^item> \<open>connRead\<close> is \<open>conn.Read\<close> on the control connection: \<open>None\<close> when the read never
    returns, otherwise the byte count and the error.
  \<^item> \<open>serving e k\<close> are the calls of \<open>connCountInc\<close> and \<open>connCountDec\<close> that the serving
    goroutines make before the drain loop takes the lock for the \<open>k\<close>-th time
    (counting from 0).
\<close>

record user =
  Uid :: string
  Gid :: string

record env =
  osArgs :: "string list"
  atoi :: "string \<Rightarrow> go_int \<times> string option"
  confGet :: "string \<Rightarrow> string \<Rightarrow> string"
  openFile :: "string \<Rightarrow> string option"
  userLookup :: "string \<Rightarrow> string + user"
  sysSetgid :: "go_int \<Rightarrow> string option"
  sysSetuid :: "go_int \<Rightarrow> string option"
  sysChroot :: "string \<Rightarrow> string option"
  sysChdir :: "string \<Rightarrow> string option"
  netListen :: "listener list \<Rightarrow> string \<Rightarrow> string option"
  fileListener :: "go_int \<Rightarrow> string option"
  fileConn :: "go_int \<Rightarrow> string option"
  connRead :: "(nat \<times> string option) option"
  serving :: "nat \<Rightarrow> counter_op list"

text \<open>How a call ends: it returns, it panics, it blocks for ever in the read of the control
  connection, or the model's fuel ran out while the drain loop was still turning.\<close>

datatype outcome = Returned | Panicked string | Blocked | OutOfFuel

subsection \<open>\<open>parseArgs\<close> and \<open>Prepare\<close>\<close>

text \<open>
  The loop of \<open>parseArgs\<close> over \<open>os.Args\<close>. An option that takes a value steps over the
  value; when the option is the last argument there is no value, nothing is stored and
  the loop ends.
\<close>

fun parseArgs_loop :: "env \<Rightarrow> string list \<Rightarrow> state \<Rightarrow> state" where
  "parseArgs_loop e [] s = s"
| "parseArgs_loop e (a # rest) s =
     (if a = ''-s'' then
        (case rest of
           [] \<Rightarrow> s
         | v # rest' \<Rightarrow>
             (let n = fst (atoi e v)
              in parseArgs_loop e rest' (s\<lparr>listenFdCount := (if n <=s 0 then 1 else n)\<rparr>)))
      else if a = ''-f'' then
        (case rest of [] \<Rightarrow> s | v # rest' \<Rightarrow> parseArgs_loop e rest' (s\<lparr>confPath := v\<rparr>))
      else if a = ''-t'' then
        (case rest of [] \<Rightarrow> s | v # rest' \<Rightarrow> parseArgs_loop e rest' (s\<lparr>sockType := v\<rparr>))
      else if a = ''-n'' then
        (case rest of [] \<Rightarrow> s | v # rest' \<Rightarrow> parseArgs_loop e rest' (s\<lparr>services := v\<rparr>))
      else if a = ''-u'' then parseArgs_loop e rest (s\<lparr>privilege := True\<rparr>)
      else if a = ''-v'' then parseArgs_loop e rest (s\<lparr>verbose := True\<rparr>)
      else if a = ''-c'' then parseArgs_loop e rest (s\<lparr>chrootOn := True\<rparr>)
      else parseArgs_loop e rest s)"

definition parseArgs :: "env \<Rightarrow> state \<Rightarrow> state" where
  "parseArgs e s =
     (let s1 = parseArgs_loop e (osArgs e) (emit ReadArgs s)
      in emit (Log (LogParsed (listenFdCount s1) (sockType s1) (services s1))) s1)"

definition open_log :: "env \<Rightarrow> state \<Rightarrow> state" where
  "open_log e s =
     (if 0 < length (logPath s) then
        (case openFile e (logPath s) of
           Some err \<Rightarrow> emit (PrintOpenFileError (logPath s) err) (emit (OpenFile (logPath s)) s)
         | None \<Rightarrow> emit (SetLogOutput (logPath s)) (emit (OpenFile (logPath s)) s))
      else s)"

definition Prepare :: "env \<Rightarrow> state \<Rightarrow> state" where
  "Prepare e s =
     (if prepareCalled s then s
      else
        (let s1 = parseArgs e (s\<lparr>prepareCalled := True\<rparr>);
             s2 = emit (InitConfig (confPath s1)) s1;
             conf = confGet e (confPath s1);
             s3 = open_log e ((emit (ConfGet ''master_log'') s2)\<lparr>logPath := conf ''master_log''\<rparr>);
             s4 = (emit (ConfGet ''master_args'') s3)\<lparr>masterArgs := conf ''master_args''\<rparr>;
             s5 = (emit (ConfGet ''fiber_owner'') s4)\<lparr>username := conf ''fiber_owner''\<rparr>;
             s6 = (emit (ConfGet ''fiber_queue_dir'') s5)\<lparr>rootDir := conf ''fiber_queue_dir''\<rparr>
         in emit (Log (LogArgs (masterArgs s6))) s6))"

subsection \<open>\<open>chroot\<close>: the privilege drop\<close>

definition chroot_setgid :: "env \<Rightarrow> user \<Rightarrow> state \<Rightarrow> state" where
  "chroot_setgid e u s =
     (case atoi e (Gid u) of
        (gid, Some err) \<Rightarrow> emit (Log (LogInvalidGid (Gid u) err)) s
      | (gid, None) \<Rightarrow>
          (case sysSetgid e gid of
             Some err \<Rightarrow> emit (Log (LogSetgidError err)) (emit (Setgid gid) s)
           | None \<Rightarrow> emit (Log LogSetgidOk) (emit (Setgid gid) s)))"

definition chroot_setuid :: "env \<Rightarrow> user \<Rightarrow> state \<Rightarrow> state" where
  "chroot_setuid e u s =
     (case atoi e (Uid u) of
        (uid, Some err) \<Rightarrow> emit (Log (LogInvalidUid (Uid u) err)) s
      | (uid, None) \<Rightarrow>
          (case sysSetuid e uid of
             Some err \<Rightarrow> emit (Log (LogSetuidError err)) (emit (Setuid uid) s)
           | None \<Rightarrow> emit (Log LogSetuidOk) (emit (Setuid uid) s)))"

definition chroot_identity :: "env \<Rightarrow> state \<Rightarrow> state" where
  "chroot_identity e s =
     (case userLookup e (username s) of
        Inl err \<Rightarrow> emit (Log (LogLookupError (username s) err)) (emit (UserLookup (username s)) s)
      | Inr u \<Rightarrow> chroot_setuid e u (chroot_setgid e u (emit (UserLookup (username s)) s)))"

definition chroot_confine :: "env \<Rightarrow> state \<Rightarrow> state" where
  "chroot_confine e s =
     (if chrootOn s \<and> 0 < length (rootDir s) then
        (case sysChroot e (rootDir s) of
           Some err \<Rightarrow> emit (Log (LogChrootError err (rootDir s))) (emit (Chroot (rootDir s)) s)
         | None \<Rightarrow>
             (let s1 = emit (Chdir ''/'') (emit (Log (LogChrootOk (rootDir s))) (emit (Chroot (rootDir s)) s))
              in case sysChdir e ''/'' of
                   Some err \<Rightarrow> emit (Log (LogChdirError err)) s1
                 | None \<Rightarrow> emit (Log LogChdirOk) s1))
      else s)"

definition chroot :: "env \<Rightarrow> state \<Rightarrow> state" where
  "chroot e s =
     (if length (masterArgs s) = 0 \<or> \<not> privilege s \<or> length (username s) = 0 then s
      else chroot_confine e (chroot_identity e s))"

subsection \<open>Acquiring the listeners\<close>

definition listen_panic :: "string \<Rightarrow> string \<Rightarrow> string" where
  "listen_panic err addr =
     ''listen error='' @ [CHR 0x22] @ err @ [CHR 0x22] @ '', addr='' @ addr"

text \<open>
  The loop of \<open>getListenersByAddrs\<close>, with the slice \<open>listeners\<close> as accumulator. A panic
  leaves the function at once: the result is \<open>Inl\<close> of its message and the state reached,
  and the listeners bound so far are not part of it.
\<close>

fun getListenersByAddrs_loop ::
  "env \<Rightarrow> string list \<Rightarrow> listener list \<Rightarrow> state \<Rightarrow> string \<times> state + listener list \<times> state" where
  "getListenersByAddrs_loop e [] listeners s = Inr (listeners, s)"
| "getListenersByAddrs_loop e (addr # rest) listeners s =
     (case netListen e listeners addr of
        Some err \<Rightarrow> Inl (listen_panic err addr, emit (NetListen addr) s)
      | None \<Rightarrow>
          getListenersByAddrs_loop e rest (listeners @ [AddrListener addr]) (emit (NetListen addr) s))"

definition getListenersByAddrs ::
  "env \<Rightarrow> string list \<Rightarrow> state \<Rightarrow> string \<times> state + listener list \<times> state" where
  "getListenersByAddrs e addrs s = getListenersByAddrs_loop e addrs [] s"

text \<open>
  The loop of \<open>getListeners\<close> from the descriptor \<open>fd\<close> on. The bound
  \<open>listenFdStart + listenFdCount\<close> is computed again at every turn, in 64 bits.
\<close>

function getListeners_loop :: "env \<Rightarrow> go_int \<Rightarrow> listener list \<Rightarrow> state \<Rightarrow> listener list \<times> state" where
  "getListeners_loop e fd listeners s =
     (if fd <s listenFdStart + listenFdCount s then
        (let s1 = emit (FileListener fd) (emit (NewFile fd) s)
         in case fileListener e fd of
              Some err \<Rightarrow>
                getListeners_loop e (fd + 1) listeners
                  (emit (Log (LogFileListenerError err fd)) (emit (FileClose fd) s1))
            | None \<Rightarrow>
                getListeners_loop e (fd + 1) (listeners @ [FdListener fd])
                  (emit (Log (LogAddFd fd)) s1))
      else (listeners, s))"
  by pat_completeness auto

termination getListeners_loop
proof (relation "measure (\<lambda>(e, fd, ls, s). nat (sint (listenFdStart + listenFdCount s) - sint fd))")
  show "wf (measure (\<lambda>(e, fd, ls, s). nat (sint (listenFdStart + listenFdCount s) - sint fd)))"
    by simp
next
  fix e :: env and fd :: go_int and listeners :: "listener list" and s s1 :: state and err :: string
  assume less: "fd <s listenFdStart + listenFdCount s"
  have "sint (listenFdStart + listenFdCount s) < 2 ^ 63"
    using sint_lt [of "listenFdStart + listenFdCount s"] by simp
  moreover have "- (2 ^ 63) \<le> sint fd"
    using sint_ge [of fd] by simp
  ultimately have step: "sint (fd + 1) = sint fd + 1"
    using less by (simp add: word_sless_alt sint_word_ariths signed_take_bit_int_eq_self)
  assume "s1 = emit (FileListener fd) (emit (NewFile fd) s)"
  then show "((e, fd + 1, listeners, emit (Log (LogFileListenerError err fd)) (emit (FileClose fd) s1)),
              (e, fd, listeners, s))
             \<in> measure (\<lambda>(e, fd, ls, s). nat (sint (listenFdStart + listenFdCount s) - sint fd))"
    using less step by (simp add: emit_def word_sless_alt)
next
  fix e :: env and fd :: go_int and listeners :: "listener list" and s s1 :: state
  assume less: "fd <s listenFdStart + listenFdCount s"
  have "sint (listenFdStart + listenFdCount s) < 2 ^ 63"
    using sint_lt [of "listenFdStart + listenFdCount s"] by simp
  moreover have "- (2 ^ 63) \<le> sint fd"
    using sint_ge [of fd] by simp
  ultimately have step: "sint (fd + 1) = sint fd + 1"
    using less by (simp add: word_sless_alt sint_word_ariths signed_take_bit_int_eq_self)
  assume "s1 = emit (FileListener fd) (emit (NewFile fd) s)"
  then show "((e, fd + 1, listeners @ [FdListener fd], emit (Log (LogAddFd fd)) s1),
              (e, fd, listeners, s))
             \<in> measure (\<lambda>(e, fd, ls, s). nat (sint (listenFdStart + listenFdCount s) - sint fd))"
    using less step by (simp add: emit_def word_sless_alt)
qed

definition getListeners :: "env \<Rightarrow> state \<Rightarrow> listener list \<times> state" where
  "getListeners e s = getListeners_loop e listenFdStart [] s"

subsection \<open>\<open>monitorMaster\<close>: the shutdown monitor\<close>

text \<open>
  The step between the read of the control connection and the drain loop: the stop
  callback when there is one, otherwise the loop that closes every listener.
\<close>

definition monitor_stop :: "listener list \<Rightarrow> hook option \<Rightarrow> state \<Rightarrow> state" where
  "monitor_stop listeners onStopHandler s =
     (case onStopHandler of
        Some h \<Rightarrow> emit (CallOnStop h) s
      | None \<Rightarrow>
          foldl (\<lambda>s' ln. emit (ListenerClose ln) (emit (Log LogClosingListener) s')) s listeners)"

text \<open>
  The drain loop. It may turn for ever, so the model gives it fuel: one unit for each
  turn, and \<open>OutOfFuel\<close> with the state reached when the fuel is used up. \<open>k\<close> counts the
  turns before this one, to ask the environment what the serving goroutines did to the
  counter in between; \<open>i\<close> is the loop's variable \<open>i\<close>. Both tests of \<open>connCount\<close> are made
  under one hold of the read lock and see one value.
\<close>

fun drain :: "nat \<Rightarrow> env \<Rightarrow> nat \<Rightarrow> go_int \<Rightarrow> state \<Rightarrow> outcome \<times> state" where
  "drain 0 e k i s = (OutOfFuel, s)"
| "drain (Suc fuel) e k i s =
     (let s1 = counter_run (serving e k) s;
          s2 = emit (ReadConnCount (connCount s1)) s1
      in if connCount s2 <=s 0 then (Returned, s2)
         else
           (let n = connCount s2;
                s3 = emit Sleep s2;
                i' = i + 1;
                s4 = emit (Log (LogExiting n i')) s3
            in if 0 <s waitExit s4 \<and> waitExit s4 <=s i'
               then (Returned, emit (Log (LogWaitingTooLong (waitExit s4))) s4)
               else drain fuel e (Suc k) i' s4))"

definition nil_dereference :: string where
  "nil_dereference = ''runtime error: invalid memory address or nil pointer dereference''"

text \<open>
  \<open>monitorMaster\<close>. When \<open>net.FileConn\<close> fails the error is logged and \<open>conn\<close> stays
  \<open>nil\<close>, so the read that follows panics. A \<open>nil\<close> \<open>stopHandler\<close> panics when it is
  called. A callback that is called is taken to return.
\<close>

definition monitorMaster ::
  "nat \<Rightarrow> env \<Rightarrow> listener list \<Rightarrow> hook option \<Rightarrow> hook option \<Rightarrow> state \<Rightarrow> outcome \<times> state" where
  "monitorMaster fuel e listeners onStopHandler stopHandler s =
     (let s1 = emit (FileConn stateFd) (emit (NewFile stateFd) s)
      in case fileConn e stateFd of
           Some err \<Rightarrow>
             (Panicked nil_dereference,
              emit (Log LogWaiting) (emit (Log (LogFileConnError err)) s1))
         | None \<Rightarrow>
             (let s2 = emit ConnRead (emit (Log LogWaiting) s1)
              in case connRead e of
                   None \<Rightarrow> (Blocked, s2)
                 | Some (n, rerr) \<Rightarrow>
                     (let s3 = (case rerr of
                                  Some err \<Rightarrow> emit (Log (LogDisconnected err)) s2
                                | None \<Rightarrow> s2);
                          s4 = emit (StoreStopping True) (s3\<lparr>stopping := True\<rparr>);
                          s5 = monitor_stop listeners onStopHandler s4
                      in case drain fuel e 0 0 s5 of
                           (Returned, s6) \<Rightarrow>
                             (let s7 = emit (Log LogExitingNow) s6
                              in case stopHandler of
                                   None \<Rightarrow> (Panicked nil_dereference, s7)
                                 | Some h \<Rightarrow> (Returned, emit (CallStop h True) s7))
                         | (out, s6) \<Rightarrow> (out, s6))))"

text \<open>
  To speak about the drain loop: \<open>polled e k s j\<close> is the value of the counter that the
  loop reads \<open>j\<close> turns after the turn numbered \<open>k\<close>, which it enters in state \<open>s\<close>;
  \<open>sleeps\<close> counts the one-second sleeps among some events; \<open>events_since s s'\<close> are the
  events that happened between the states \<open>s\<close> and \<open>s'\<close>.
\<close>

fun polled :: "env \<Rightarrow> nat \<Rightarrow> state \<Rightarrow> nat \<Rightarrow> go_int" where
  "polled e k s 0 = connCount (counter_run (serving e k) s)"
| "polled e k s (Suc j) = polled e (Suc k) (counter_run (serving e k) s) j"

definition sleeps :: "event list \<Rightarrow> nat" where
  "sleeps evs = length (filter (\<lambda>ev. ev = Sleep) evs)"

definition events_since :: "state \<Rightarrow> state \<Rightarrow> event list" where
  "events_since s s' = drop (length (trace s)) (trace s')"

text \<open>What \<open>monitor_stop\<close> does, as events.\<close>

definition stop_events :: "listener list \<Rightarrow> hook option \<Rightarrow> event list" where
  "stop_events listeners onStopHandler =
     (case onStopHandler of
        Some h \<Rightarrow> [CallOnStop h]
      | None \<Rightarrow> concat (map (\<lambda>ln. [Log LogClosingListener, ListenerClose ln]) listeners))"

text \<open>What \<open>monitorMaster\<close> does up to the return of the read, as events.\<close>

definition read_events :: "string option \<Rightarrow> event list" where
  "read_events rerr =
     [NewFile stateFd, FileConn stateFd, Log LogWaiting, ConnRead] @
     (case rerr of Some err \<Rightarrow> [Log (LogDisconnected err)] | None \<Rightarrow> [])"

subsection \<open>Registering the hooks\<close>

definition OnPreJail :: "hook option \<Rightarrow> state \<Rightarrow> state" where
  "OnPreJail handler s = s\<lparr>preJailHandler := handler\<rparr>"

definition OnInit :: "hook option \<Rightarrow> state \<Rightarrow> state" where
  "OnInit handler s = s\<lparr>initHandler := handler\<rparr>"

definition OnExit :: "hook option \<Rightarrow> state \<Rightarrow> state" where
  "OnExit handler s = s\<lparr>exitHandler := handler\<rparr>"

subsection \<open>Every function of the file, as one step\<close>

text \<open>
  A call of one of the functions of \<open>service.go\<close> with its arguments, and the state it
  leaves behind. A run of the package is a sequence of such calls.
\<close>

datatype call =
    DoPrepare
  | DoParseArgs
  | DoChroot
  | DoGetListenersByAddrs "string list"
  | DoGetListeners
  | DoMonitorMaster nat "listener list" "hook option" "hook option"
  | DoConnCountInc
  | DoConnCountDec
  | DoConnCountCur
  | DoOnPreJail "hook option"
  | DoOnInit "hook option"
  | DoOnExit "hook option"

fun exec :: "env \<Rightarrow> state \<Rightarrow> call \<Rightarrow> state" where
  "exec e s DoPrepare = Prepare e s"
| "exec e s DoParseArgs = parseArgs e s"
| "exec e s DoChroot = chroot e s"
| "exec e s (DoGetListenersByAddrs addrs) =
     (case getListenersByAddrs e addrs s of Inl (msg, s') \<Rightarrow> s' | Inr (ls, s') \<Rightarrow> s')"
| "exec e s DoGetListeners = snd (getListeners e s)"
| "exec e s (DoMonitorMaster fuel listeners onStopHandler stopHandler) =
     snd (monitorMaster fuel e listeners onStopHandler stopHandler s)"
| "exec e s DoConnCountInc = connCountInc s"
| "exec e s DoConnCountDec = connCountDec s"
| "exec e s DoConnCountCur = s"
| "exec e s (DoOnPreJail h) = OnPreJail h s"
| "exec e s (DoOnInit h) = OnInit h s"
| "exec e s (DoOnExit h) = OnExit h s"

definition run :: "env \<Rightarrow> call list \<Rightarrow> state \<Rightarrow> state" where
  "run e calls s = foldl (exec e) s calls"

text \<open>
  To speak about the hooks: \<open>set_hooks\<close> overwrites the three variables that \<open>OnPreJail\<close>,
  \<open>OnInit\<close> and \<open>OnExit\<close> store into; \<open>hooks_called\<close> are the callbacks that a sequence of
  events called, in order; \<open>passed\<close> are the callbacks that a call was given as arguments.
\<close>

definition set_hooks :: "hook option \<Rightarrow> hook option \<Rightarrow> hook option \<Rightarrow> state \<Rightarrow> state" where
  "set_hooks a b c s = s\<lparr>preJailHandler := a, initHandler := b, exitHandler := c\<rparr>"

fun called :: "event \<Rightarrow> hook option" where
  "called (CallOnStop h) = Some h"
| "called (CallStop h b) = Some h"
| "called ev = None"

definition hooks_called :: "event list \<Rightarrow> hook list" where
  "hooks_called evs = List.map_filter called evs"

fun passed :: "call \<Rightarrow> hook list" where
  "passed (DoMonitorMaster fuel listeners onStopHandler stopHandler) =
     (case onStopHandler of Some h \<Rightarrow> [h] | None \<Rightarrow> []) @
     (case stopHandler of Some h \<Rightarrow> [h] | None \<Rightarrow> [])"
| "passed c = []"

subsection \<open>A sample environment\<close>

text \<open>
  One environment to run the functions in: a worker started with
  \<open>-u -c -s 3 -f /etc/worker.cf\<close>, whose configuration names the user \<open>nobody\<close>, where
  changing the group is refused, descriptor 7 is not a socket, port 80 cannot be bound,
  the control connection ends with \<open>EOF\<close>, and the second of two open connections never
  closes.
\<close>

definition sample_env :: env where
  "sample_env = \<lparr>
     osArgs = [''worker'', ''-u'', ''-c'', ''-s'', ''3'', ''-f'', ''/etc/worker.cf''],
     atoi = (\<lambda>a. if a = ''3'' then (3, None)
                 else if a = ''65534'' then (65534, None)
                 else (0, Some ''invalid syntax'')),
     confGet = (\<lambda>path key.
                 if path \<noteq> ''/etc/worker.cf'' then []
                 else if key = ''master_args'' then ''-u -c''
                 else if key = ''fiber_owner'' then ''nobody''
                 else if key = ''fiber_queue_dir'' then ''/var/queue''
                 else []),
     openFile = (\<lambda>path. None),
     userLookup = (\<lambda>name. if name = ''nobody'' then Inr \<lparr>Uid = ''65534'', Gid = ''65534''\<rparr>
                          else Inl ''unknown user''),
     sysSetgid = (\<lambda>gid. Some ''operation not permitted''),
     sysSetuid = (\<lambda>uid. None),
     sysChroot = (\<lambda>dir. None),
     sysChdir = (\<lambda>dir. None),
     netListen = (\<lambda>bound addr. if addr = '':80'' then Some ''permission denied'' else None),
     fileListener = (\<lambda>fd. if fd = 7 then Some ''socket operation on non-socket'' else None),
     fileConn = (\<lambda>fd. None),
     connRead = Some (0, Some ''EOF''),
     serving = (\<lambda>k. if k = 0 then [Inc, Inc] else if k = 1 then [Dec] else []) \<rparr>"

text \<open>
  The same environment with one connection only, open when the drain loop first reads the
  counter and closed before its second read.
\<close>

definition sample_env_closing :: env where
  "sample_env_closing =
     sample_env\<lparr>serving := (\<lambda>k. if k = 0 then [Inc] else if k = 1 then [Dec] else [])\<rparr>"

section \<open>The connection counter\<close>

lemma sint_inc: "sint (x::go_int) < 2 ^ 63 - 1 \<Longrightarrow> sint (x + 1) = sint x + 1"
proof -
  assume a: "sint x < 2 ^ 63 - 1"
  have "- (2 ^ 63) \<le> sint x" using sint_ge [of x] by simp
  then show ?thesis using a
    by (simp add: sint_word_ariths signed_take_bit_int_eq_self)
qed

lemma sint_dec: "- (2 ^ 63) < sint (x::go_int) \<Longrightarrow> sint (x - 1) = sint x - 1"
proof -
  assume a: "- (2 ^ 63) < sint x"
  have "sint x < 2 ^ 63" using sint_lt [of x] by simp
  then show ?thesis using a
    by (simp add: sint_word_ariths signed_take_bit_int_eq_self)
qed

lemma counter_run_Nil [simp]: "counter_run [] s = s"
  by (simp add: counter_run_def)

lemma counter_run_Cons [simp]: "counter_run (x # ops) s = counter_run ops (counter_step s x)"
  by (simp add: counter_run_def)

lemma incs_simps [simp]: "incs [] = 0" "incs (Inc # ops) = Suc (incs ops)" "incs (Dec # ops) = incs ops"
  by (simp_all add: incs_def)

lemma decs_simps [simp]: "decs [] = 0" "decs (Dec # ops) = Suc (decs ops)" "decs (Inc # ops) = decs ops"
  by (simp_all add: decs_def)

lemma counter_run_sint:
  "\<bar>sint (connCount s)\<bar> + int (length ops) < 2 ^ 63 \<Longrightarrow>
   sint (connCount (counter_run ops s)) = sint (connCount s) + int (incs ops) - int (decs ops)"
proof (induction ops arbitrary: s)
  case Nil
  then show ?case by simp
next
  case (Cons x ops)
  show ?case
  proof (cases x)
    case Inc
    have st: "sint (connCount (connCountInc s)) = sint (connCount s) + 1"
      using Cons.prems by (simp add: connCountInc_def sint_inc)
    have "\<bar>sint (connCount (connCountInc s))\<bar> + int (length ops) < 2 ^ 63"
      using Cons.prems st by simp
    from Cons.IH [OF this] st Inc show ?thesis by simp
  next
    case Dec
    have st: "sint (connCount (connCountDec s)) = sint (connCount s) - 1"
      using Cons.prems by (simp add: connCountDec_def sint_dec)
    have "\<bar>sint (connCount (connCountDec s))\<bar> + int (length ops) < 2 ^ 63"
      using Cons.prems st by simp
    from Cons.IH [OF this] st Dec show ?thesis by simp
  qed
qed

lemma snapshots_Nil [simp]: "snapshots [] s = [connCount s]"
  by (simp add: snapshots_def connCountCur_def)

lemma upt_Suc_Suc: "[0..<Suc (Suc n)] = 0 # map Suc [0..<Suc n]"
proof -
  have "[0..<Suc (Suc n)] = 0 # [Suc 0..<Suc (Suc n)]"
    by (rule upt_conv_Cons) simp
  also have "[Suc 0..<Suc (Suc n)] = map Suc [0..<Suc n]"
    by (rule map_Suc_upt [symmetric])
  finally show ?thesis .
qed

lemma snapshots_Cons [simp]:
  "snapshots (x # ops) s = connCount s # snapshots ops (counter_step s x)"
  unfolding snapshots_def
  by (simp add: upt_Suc_Suc connCountCur_def comp_def del: upt_Suc)

lemma snapshots_last: "snapshots ops s \<noteq> [] \<and> last (snapshots ops s) = connCount (counter_run ops s)"
  by (induction ops arbitrary: s) simp_all

lemma paired_snapshots:
  "paired_from b ops \<Longrightarrow> sint (connCount s) = int b \<Longrightarrow> int b + int (length ops) < 2 ^ 63 \<Longrightarrow>
   \<forall>c \<in> set (snapshots ops s). 0 \<le> sint c"
proof (induction b ops arbitrary: s rule: paired_from.induct)
  case (1 b)
  then show ?case by simp
next
  case (2 b ops)
  have st: "sint (connCount (connCountInc s)) = int (Suc b)"
    using "2.prems" by (simp add: connCountInc_def sint_inc)
  have "\<forall>c \<in> set (snapshots ops (connCountInc s)). 0 \<le> sint c"
    using "2.IH" [OF _ st] "2.prems" by simp
  then show ?case using "2.prems" by simp
next
  case (3 b ops)
  then have pos: "0 < b" by simp
  have st: "sint (connCount (connCountDec s)) = int (b - 1)"
    using "3.prems" pos by (simp add: connCountDec_def sint_dec of_nat_diff)
  have "\<forall>c \<in> set (snapshots ops (connCountDec s)). 0 \<le> sint c"
    using "3.IH" [OF _ st] "3.prems" by simp
  then show ?case using "3.prems" by simp
qed


text \<open>
  C1, as the code has it. Starting from the counter's initial value 0, a sequence of fewer
  than \<open>2 ^ 63\<close> increments and decrements, \<open>N\<close> increments and \<open>M\<close> decrements in any
  order, leaves the snapshot at \<open>N - M\<close>. When moreover every decrement follows an
  increment of its own (\<open>paired\<close>), then \<open>M \<le> N\<close> and no snapshot taken at any point of
  the sequence is negative.
\<close>

theorem connCount_final_and_snapshots:
  "length ops < 2 ^ 63 \<Longrightarrow>
     sint (connCountCur (counter_run ops init_state)) = int (incs ops) - int (decs ops) \<and>
     (paired ops \<longrightarrow> decs ops \<le> incs ops \<and> (\<forall>c \<in> set (snapshots ops init_state). 0 \<le> sint c))"
proof -
  assume len: "length ops < 2 ^ 63"
  have c0: "connCount init_state = 0" by (simp add: init_state_def)
  have "int (length ops) < int (2 ^ 63)"
    using len by (simp only: of_nat_less_iff)
  then have leni: "int (length ops) < 2 ^ 63" by simp
  have bound: "\<bar>sint (connCount init_state)\<bar> + int (length ops) < 2 ^ 63"
    using leni by (simp add: c0)
  have final: "sint (connCountCur (counter_run ops init_state)) = int (incs ops) - int (decs ops)"
    using counter_run_sint [OF bound] by (simp add: connCountCur_def c0)
  have snaps: "\<forall>c \<in> set (snapshots ops init_state). 0 \<le> sint c" if "paired ops"
    using paired_snapshots [of 0 ops init_state] that leni by (simp add: paired_def c0)
  have "decs ops \<le> incs ops" if "paired ops"
  proof -
    have "connCountCur (counter_run ops init_state) \<in> set (snapshots ops init_state)"
      using snapshots_last [of ops init_state] last_in_set [of "snapshots ops init_state"]
      by (simp add: connCountCur_def)
    with snaps [OF that] have "0 \<le> sint (connCountCur (counter_run ops init_state))" by blast
    with final show ?thesis by simp
  qed
  with final snaps show ?thesis by blast
qed

theorem connCount_final_and_snapshots_witness:
  "length [Inc, Inc, Dec] < (2::nat) ^ 63 \<and> paired [Inc, Inc, Dec] \<and>
   sint (connCountCur (counter_run [Inc, Inc, Dec] init_state)) = 1 \<and>
   decs [Inc, Inc, Dec] \<le> incs [Inc, Inc, Dec] \<and>
   snapshots [Inc, Inc, Dec] init_state = [0, 1, 2, 1]"
proof -
  have len: "length [Inc, Inc, Dec] < (2::nat) ^ 63"
    by simp
  have pair: "paired [Inc, Inc, Dec]"
    by (simp add: paired_def)
  show ?thesis
    using connCount_final_and_snapshots [OF len] len pair
    by (simp add: connCountInc_def connCountDec_def init_state_def)
qed

text \<open>
  C1 as the specification states it asks only for \<open>M \<le> N\<close> and any order. One decrement
  followed by one increment has \<open>N = M = 1\<close>, and the snapshot between the two is \<open>-1\<close>:
  neither \<open>connCountDec\<close> nor any other function guards the counter against it.
\<close>

theorem connCount_snapshot_negative:
  "decs [Dec, Inc] \<le> incs [Dec, Inc] \<and>
   snapshots [Dec, Inc] init_state = [0, - 1, 0] \<and>
   sint (snapshots [Dec, Inc] init_state ! 1) < 0"
  by (simp add: connCountInc_def connCountDec_def init_state_def)

section \<open>Preparation\<close>

lemma parseArgs_loop_keeps:
  "trace (parseArgs_loop e args s) = trace s \<and>
   prepareCalled (parseArgs_loop e args s) = prepareCalled s"
proof (induction e args s rule: parseArgs_loop.induct)
  case (1 e s)
  show ?case by simp
next
  case (2 e a rest s)
  show ?case
  proof (cases rest)
    case Nil
    with 2 show ?thesis by simp
  next
    case (Cons v rest')
    with 2 show ?thesis by (simp add: Let_def)
  qed
qed


lemma open_log_keeps: "\<exists>evs. open_log e s = s\<lparr>trace := trace s @ evs\<rparr>"
proof (cases "0 < length (logPath s)")
  case False
  then have "open_log e s = s\<lparr>trace := trace s @ []\<rparr>" by (simp add: open_log_def)
  then show ?thesis ..
next
  case True
  show ?thesis
  proof (cases "openFile e (logPath s)")
    case None
    with True have "open_log e s = s\<lparr>trace := trace s @ [OpenFile (logPath s), SetLogOutput (logPath s)]\<rparr>"
      by (simp add: open_log_def emit_def)
    then show ?thesis ..
  next
    case (Some err)
    with True have "open_log e s = s\<lparr>trace := trace s @ [OpenFile (logPath s), PrintOpenFileError (logPath s) err]\<rparr>"
      by (simp add: open_log_def emit_def)
    then show ?thesis ..
  qed
qed

lemma Prepare_first:
  assumes "\<not> prepareCalled s"
  shows "prepareCalled (Prepare e s) \<and>
     (\<exists>evs. trace (Prepare e s) = trace s @ ReadArgs # evs \<and>
        InitConfig (confPath (Prepare e s)) \<in> set evs) \<and>
     logPath (Prepare e s) = confGet e (confPath (Prepare e s)) ''master_log'' \<and>
     masterArgs (Prepare e s) = confGet e (confPath (Prepare e s)) ''master_args'' \<and>
     username (Prepare e s) = confGet e (confPath (Prepare e s)) ''fiber_owner'' \<and>
     rootDir (Prepare e s) = confGet e (confPath (Prepare e s)) ''fiber_queue_dir''"
proof -
  let ?s1 = "parseArgs e (s\<lparr>prepareCalled := True\<rparr>)"
  let ?s2 = "emit (InitConfig (confPath ?s1)) ?s1"
  let ?s3 = "(emit (ConfGet ''master_log'') ?s2)\<lparr>logPath := confGet e (confPath ?s1) ''master_log''\<rparr>"
  obtain evs where evs: "open_log e ?s3 = ?s3\<lparr>trace := trace ?s3 @ evs\<rparr>"
    using open_log_keeps [of e ?s3] by blast
  have s1: "prepareCalled ?s1" "\<exists>l. trace ?s1 = trace s @ [ReadArgs, l]"
    by (simp_all add: parseArgs_def Let_def emit_def parseArgs_loop_keeps)
  then obtain l where l: "trace ?s1 = trace s @ [ReadArgs, l]" by blast
  show ?thesis
    using assms s1(1) l
    by (simp add: Prepare_def Let_def evs) (simp add: emit_def)
qed

lemma sample_prepared:
  "Prepare sample_env init_state =
    \<lparr>listenFdCount = 3, confPath = ''/etc/worker.cf'', sockType = [],
     services = [], privilege = True, verbose = False, chrootOn = True,
     preJailHandler = None, initHandler = None, exitHandler = None,
     connCount = 0, stopping = False, waitExit = 10, prepareCalled = True,
     logPath = [], username = ''nobody'', masterArgs = ''-u -c'',
     rootDir = ''/var/queue'',
     trace =
       [ReadArgs, Log (LogParsed 3 [] []), InitConfig ''/etc/worker.cf'',
        ConfGet ''master_log'', ConfGet ''master_args'',
        ConfGet ''fiber_owner'', ConfGet ''fiber_queue_dir'',
        Log (LogArgs ''-u -c'')]\<rparr>"
  by (simp add: Prepare_def parseArgs_def open_log_def emit_def sample_env_def init_state_def
      Let_def word_sle_eq)

text \<open>
  C10. \<open>Prepare\<close> is idempotent. A call that finds \<open>prepareCalled\<close> set returns the state
  as it is: nothing is read, nothing is logged, no variable changes. A call that finds it
  clear sets it, reads the arguments, loads the configuration named by \<open>confPath\<close> and
  takes the four settings from it. So a second call after any call changes nothing.
\<close>

theorem Prepare_idempotent:
  "(prepareCalled s \<longrightarrow> Prepare e s = s) \<and>
   Prepare e (Prepare e s) = Prepare e s \<and>
   (\<not> prepareCalled s \<longrightarrow>
      prepareCalled (Prepare e s) \<and>
      (\<exists>evs. trace (Prepare e s) = trace s @ ReadArgs # evs \<and>
         InitConfig (confPath (Prepare e s)) \<in> set evs) \<and>
      logPath (Prepare e s) = confGet e (confPath (Prepare e s)) ''master_log'' \<and>
      masterArgs (Prepare e s) = confGet e (confPath (Prepare e s)) ''master_args'' \<and>
      username (Prepare e s) = confGet e (confPath (Prepare e s)) ''fiber_owner'' \<and>
      rootDir (Prepare e s) = confGet e (confPath (Prepare e s)) ''fiber_queue_dir'')"
proof -
  have again: "prepareCalled t \<Longrightarrow> Prepare e t = t" for t
    by (simp add: Prepare_def)
  have called: "prepareCalled (Prepare e s)"
    using Prepare_first [of s e] again [of s] by (cases "prepareCalled s") simp_all
  from again [OF called] again [of s] Prepare_first [of s e] show ?thesis by blast
qed

theorem Prepare_idempotent_witness:
  "\<not> prepareCalled init_state \<and>
   prepareCalled (Prepare sample_env init_state) \<and>
   Prepare sample_env (Prepare sample_env init_state) = Prepare sample_env init_state \<and>
   trace (Prepare sample_env init_state) =
     [ReadArgs, Log (LogParsed 3 [] []), InitConfig ''/etc/worker.cf'',
      ConfGet ''master_log'', ConfGet ''master_args'', ConfGet ''fiber_owner'',
      ConfGet ''fiber_queue_dir'', Log (LogArgs ''-u -c'')] \<and>
   username (Prepare sample_env init_state) = ''nobody''"
  using Prepare_idempotent [of init_state sample_env]
    Prepare_idempotent [of "Prepare sample_env init_state" sample_env]
  by (simp add: sample_prepared) (simp add: init_state_def)

section \<open>The privilege drop\<close>

lemma chroot_setgid_trace:
  "\<exists>G. trace (chroot_setgid e u s) = trace s @ G \<and> (\<forall>x. Setuid x \<notin> set G) \<and>
     (\<forall>gid err. atoi e (Gid u) = (gid, Some err) \<longrightarrow> G = [Log (LogInvalidGid (Gid u) err)]) \<and>
     (\<forall>gid. atoi e (Gid u) = (gid, None) \<longrightarrow>
        G = [Setgid gid, Log (case sysSetgid e gid of Some err \<Rightarrow> LogSetgidError err | None \<Rightarrow> LogSetgidOk)])"
  by (auto simp: chroot_setgid_def emit_def split: prod.splits option.splits)

lemma chroot_setuid_trace:
  "\<exists>U. trace (chroot_setuid e u s) = trace s @ U \<and> (\<forall>x. Setgid x \<notin> set U) \<and>
     (\<forall>uid err. atoi e (Uid u) = (uid, Some err) \<longrightarrow> U = [Log (LogInvalidUid (Uid u) err)]) \<and>
     (\<forall>uid. atoi e (Uid u) = (uid, None) \<longrightarrow>
        U = [Setuid uid, Log (case sysSetuid e uid of Some err \<Rightarrow> LogSetuidError err | None \<Rightarrow> LogSetuidOk)])"
  by (auto simp: chroot_setuid_def emit_def split: prod.splits option.splits)

lemma chroot_confine_trace:
  "\<exists>C. trace (chroot_confine e s) = trace s @ C \<and> (\<forall>x. Setgid x \<notin> set C) \<and> (\<forall>x. Setuid x \<notin> set C)"
  by (auto simp: chroot_confine_def emit_def Let_def split: option.splits)

text \<open>
  C4. The gate of \<open>chroot\<close> is one test at its start: when no user name is configured
  (\<open>username\<close> is empty), or the flag \<open>-u\<close> was not given (\<open>privilege\<close> is off), or
  \<open>masterArgs\<close> is empty, \<open>chroot\<close> returns the state unchanged, so it looks up no user,
  makes no system call and writes no log line. In every other case the first thing it
  does is the lookup of the user name.
\<close>

theorem chroot_gate:
  "(length (username s) = 0 \<or> \<not> privilege s \<or> length (masterArgs s) = 0 \<longrightarrow> chroot e s = s) \<and>
   (\<not> (length (username s) = 0 \<or> \<not> privilege s \<or> length (masterArgs s) = 0) \<longrightarrow>
      take (Suc (length (trace s))) (trace (chroot e s)) = trace s @ [UserLookup (username s)])"
proof -
  have "take (Suc (length (trace s))) (trace (chroot_confine e (chroot_identity e s)))
          = trace s @ [UserLookup (username s)]"
  proof -
    obtain C where C: "trace (chroot_confine e (chroot_identity e s)) = trace (chroot_identity e s) @ C"
      using chroot_confine_trace by blast
    have "\<exists>I. trace (chroot_identity e s) = trace s @ UserLookup (username s) # I"
    proof (cases "userLookup e (username s)")
      case (Inl err)
      then show ?thesis by (simp add: chroot_identity_def emit_def)
    next
      case (Inr u)
      obtain G where G: "trace (chroot_setgid e u (emit (UserLookup (username s)) s))
                           = trace (emit (UserLookup (username s)) s) @ G"
        using chroot_setgid_trace by blast
      obtain U where U: "trace (chroot_setuid e u (chroot_setgid e u (emit (UserLookup (username s)) s)))
                           = trace (chroot_setgid e u (emit (UserLookup (username s)) s)) @ U"
        using chroot_setuid_trace by blast
      show ?thesis using Inr G U by (simp add: chroot_identity_def emit_def)
    qed
    then obtain I where "trace (chroot_identity e s) = trace s @ UserLookup (username s) # I" ..
    with C show ?thesis by simp
  qed
  then show ?thesis by (auto simp: chroot_def)
qed

theorem chroot_gate_witness:
  "\<not> privilege init_state \<and> chroot sample_env init_state = init_state \<and>
   privilege (Prepare sample_env init_state) \<and>
   username (Prepare sample_env init_state) = ''nobody'' \<and>
   masterArgs (Prepare sample_env init_state) = ''-u -c'' \<and>
   take (Suc (length (trace (Prepare sample_env init_state))))
     (trace (chroot sample_env (Prepare sample_env init_state)))
     = trace (Prepare sample_env init_state) @ [UserLookup ''nobody'']"
proof -
  have off: "\<not> privilege init_state"
    by (simp add: init_state_def)
  show ?thesis
    using chroot_gate [of init_state sample_env]
      chroot_gate [of "Prepare sample_env init_state" sample_env] off
    by (simp add: sample_prepared)
qed

text \<open>
  C5. Past the gate and with the user name resolved to \<open>u\<close>, what \<open>chroot\<close> does is the
  lookup, then the group step \<open>G\<close>, then the user step \<open>U\<close>, then the confinement \<open>C\<close>. No
  \<open>Setuid\<close> happens in \<open>G\<close> and no \<open>Setgid\<close> after it, so the group id is set strictly
  before the user id. A gid that does not parse, or a \<open>Setgid\<close> that fails, is logged in
  \<open>G\<close>; and whatever \<open>G\<close> was, a uid that parses is handed to \<open>Setuid\<close> in \<open>U\<close>.
\<close>

theorem chroot_group_before_user:
  assumes gate: "\<not> (length (masterArgs s) = 0 \<or> \<not> privilege s \<or> length (username s) = 0)"
    and lookup: "userLookup e (username s) = Inr u"
  shows "\<exists>G U C.
           trace (chroot e s) = trace s @ UserLookup (username s) # G @ U @ C \<and>
           (\<forall>x. Setuid x \<notin> set G) \<and> (\<forall>x. Setgid x \<notin> set (U @ C)) \<and>
           (\<forall>x. Setuid x \<notin> set C) \<and>
           (\<forall>gid err. atoi e (Gid u) = (gid, Some err) \<longrightarrow>
              G = [Log (LogInvalidGid (Gid u) err)]) \<and>
           (\<forall>gid. atoi e (Gid u) = (gid, None) \<longrightarrow>
              G = [Setgid gid,
                   Log (case sysSetgid e gid of
                          Some err \<Rightarrow> LogSetgidError err | None \<Rightarrow> LogSetgidOk)]) \<and>
           (\<forall>uid. atoi e (Uid u) = (uid, None) \<longrightarrow>
              U = [Setuid uid,
                   Log (case sysSetuid e uid of
                          Some err \<Rightarrow> LogSetuidError err | None \<Rightarrow> LogSetuidOk)])"
proof -
  let ?s0 = "emit (UserLookup (username s)) s"
  let ?s1 = "chroot_setgid e u ?s0"
  let ?s2 = "chroot_setuid e u ?s1"
  obtain G where G: "trace ?s1 = trace ?s0 @ G" "\<forall>x. Setuid x \<notin> set G"
    "\<forall>gid err. atoi e (Gid u) = (gid, Some err) \<longrightarrow> G = [Log (LogInvalidGid (Gid u) err)]"
    "\<forall>gid. atoi e (Gid u) = (gid, None) \<longrightarrow>
        G = [Setgid gid, Log (case sysSetgid e gid of Some err \<Rightarrow> LogSetgidError err | None \<Rightarrow> LogSetgidOk)]"
    using chroot_setgid_trace [of e u ?s0] by blast
  obtain U where U: "trace ?s2 = trace ?s1 @ U" "\<forall>x. Setgid x \<notin> set U"
    "\<forall>uid. atoi e (Uid u) = (uid, None) \<longrightarrow>
        U = [Setuid uid, Log (case sysSetuid e uid of Some err \<Rightarrow> LogSetuidError err | None \<Rightarrow> LogSetuidOk)]"
    using chroot_setuid_trace [of e u ?s1] by blast
  obtain C where C: "trace (chroot_confine e ?s2) = trace ?s2 @ C"
    "\<forall>x. Setgid x \<notin> set C" "\<forall>x. Setuid x \<notin> set C"
    using chroot_confine_trace [of e ?s2] by blast
  have "chroot e s = chroot_confine e ?s2"
    using gate lookup by (simp add: chroot_def chroot_identity_def)
  then have "trace (chroot e s) = trace s @ UserLookup (username s) # G @ U @ C"
    using G(1) U(1) C(1) by (simp add: emit_def)
  with G(2-) U(2-) C(2-) show ?thesis
    by (intro exI [of _ G] exI [of _ U] exI [of _ C]) simp
qed

theorem chroot_group_before_user_witness:
  "masterArgs (Prepare sample_env init_state) = ''-u -c'' \<and>
   privilege (Prepare sample_env init_state) \<and>
   username (Prepare sample_env init_state) = ''nobody'' \<and>
   userLookup sample_env ''nobody'' = Inr \<lparr>Uid = ''65534'', Gid = ''65534''\<rparr> \<and>
   sysSetgid sample_env 65534 = Some ''operation not permitted'' \<and>
   trace (chroot sample_env (Prepare sample_env init_state)) =
     trace (Prepare sample_env init_state) @
     [UserLookup ''nobody'', Setgid 65534, Log (LogSetgidError ''operation not permitted''),
      Setuid 65534, Log LogSetuidOk,
      Chroot ''/var/queue'', Log (LogChrootOk ''/var/queue''), Chdir ''/'', Log LogChdirOk]"
proof -
  have look: "userLookup sample_env (username (Prepare sample_env init_state))
                = Inr \<lparr>Uid = ''65534'', Gid = ''65534''\<rparr>"
    by (simp add: sample_prepared) (simp add: sample_env_def)
  have gate: "\<not> (length (masterArgs (Prepare sample_env init_state)) = 0 \<or>
                 \<not> privilege (Prepare sample_env init_state) \<or>
                 length (username (Prepare sample_env init_state)) = 0)"
    by (simp add: sample_prepared)
  have run: "trace (chroot sample_env (Prepare sample_env init_state)) =
     trace (Prepare sample_env init_state) @
     [UserLookup ''nobody'', Setgid 65534, Log (LogSetgidError ''operation not permitted''),
      Setuid 65534, Log LogSetuidOk,
      Chroot ''/var/queue'', Log (LogChrootOk ''/var/queue''), Chdir ''/'', Log LogChdirOk]"
    using chroot_group_before_user [OF gate look]
    by (simp add: sample_prepared)
       (simp add: chroot_def chroot_identity_def chroot_setgid_def chroot_setuid_def
          chroot_confine_def emit_def sample_env_def)
  show ?thesis using run by (simp add: sample_prepared) (simp add: sample_env_def)
qed

section \<open>Acquiring the listeners\<close>

declare getListeners_loop.simps [simp del]

lemma sint_succ_less: "x <s b \<Longrightarrow> sint ((x::go_int) + 1) = sint x + 1"
proof -
  assume a: "x <s b"
  have "sint b < 2 ^ 63" using sint_lt [of b] by simp
  with a have "sint x < 2 ^ 63 - 1" by (simp add: word_sless_alt)
  then show ?thesis by (rule sint_inc)
qed

lemma sint_eq_iff: "(sint (x::go_int) = sint y) = (x = y)"
  using word_eq_iff_signed [where ?'a = int, of x y] by simp

lemma listenFdCount_emit [simp]: "listenFdCount (emit ev s) = listenFdCount s"
  by (simp add: emit_def)

lemma getListeners_loop_spec:
  "\<exists>fds. fst (getListeners_loop e fd acc s) = acc @ map FdListener fds \<and>
         sorted_wrt (<s) fds \<and>
         set fds = {x. fd <=s x \<and> x <s listenFdStart + listenFdCount s \<and> fileListener e x = None} \<and>
         int (length fds) \<le> max 0 (sint (listenFdStart + listenFdCount s) - sint fd)"
proof (induction e fd acc s rule: getListeners_loop.induct)
  case (1 e fd acc s)
  let ?B = "listenFdStart + listenFdCount s"
  show ?case
  proof (cases "fd <s ?B")
    case False
    then have "fst (getListeners_loop e fd acc s) = acc @ map FdListener []"
      by (subst getListeners_loop.simps) simp
    moreover have "{x. fd <=s x \<and> x <s ?B \<and> fileListener e x = None} = {}"
      using False by (auto simp: word_sle_eq word_sless_alt)
    moreover have "sint ?B - sint fd \<le> 0"
      using False by (simp add: word_sless_alt)
    ultimately show ?thesis
      by (intro exI [of _ "[]"]) simp
  next
    case True
    then have step: "sint (fd + 1) = sint fd + 1" by (rule sint_succ_less)
    have split: "(fd <=s x) = (x = fd \<or> fd + 1 <=s x)" for x
      using step sint_eq_iff [of x fd] by (auto simp: word_sle_eq)
    have below: "\<not> fd + 1 <=s fd"
      using step by (simp add: word_sle_eq)
    let ?s1 = "emit (FileListener fd) (emit (NewFile fd) s)"
    show ?thesis
    proof (cases "fileListener e fd")
      case (Some err)
      let ?s' = "emit (Log (LogFileListenerError err fd)) (emit (FileClose fd) ?s1)"
      have unfold: "getListeners_loop e fd acc s = getListeners_loop e (fd + 1) acc ?s'"
        using True Some by (subst getListeners_loop.simps) (simp add: Let_def)
      from "1.IH"(2) [OF True refl Some]
      obtain fds where fds: "fst (getListeners_loop e (fd + 1) acc ?s') = acc @ map FdListener fds"
        "sorted_wrt (<s) fds"
        "set fds = {x. fd + 1 <=s x \<and> x <s ?B \<and> fileListener e x = None}"
        "int (length fds) \<le> max 0 (sint ?B - sint (fd + 1))"
        by auto
      have "set fds = {x. fd <=s x \<and> x <s ?B \<and> fileListener e x = None}"
        using fds(3) Some split by auto
      moreover have "int (length fds) \<le> max 0 (sint ?B - sint fd)"
        using fds(4) step by simp
      ultimately show ?thesis
        using fds(1,2) unfold by (intro exI [of _ fds]) simp
    next
      case None
      let ?s' = "emit (Log (LogAddFd fd)) ?s1"
      have unfold: "getListeners_loop e fd acc s
                      = getListeners_loop e (fd + 1) (acc @ [FdListener fd]) ?s'"
        using True None by (subst getListeners_loop.simps) (simp add: Let_def)
      from "1.IH"(1) [OF True refl None]
      obtain fds where fds:
        "fst (getListeners_loop e (fd + 1) (acc @ [FdListener fd]) ?s')
           = (acc @ [FdListener fd]) @ map FdListener fds"
        "sorted_wrt (<s) fds"
        "set fds = {x. fd + 1 <=s x \<and> x <s ?B \<and> fileListener e x = None}"
        "int (length fds) \<le> max 0 (sint ?B - sint (fd + 1))"
        by auto
      have "set (fd # fds) = {x. fd <=s x \<and> x <s ?B \<and> fileListener e x = None}"
        using fds(3) None True split by auto
      moreover have "sorted_wrt (<s) (fd # fds)"
        using fds(2,3) step by (auto simp: word_sle_eq word_sless_alt)
      moreover have "int (length (fd # fds)) \<le> max 0 (sint ?B - sint fd)"
        using fds(4) step True by (simp add: word_sless_alt)
      ultimately show ?thesis
        using fds(1) unfold by (intro exI [of _ "fd # fds"]) simp
    qed
  qed
qed

text \<open>
  C6. In inherited mode, for a descriptor range that is valid (a count that is not
  negative and a range \<open>listenFdStart .. listenFdStart + listenFdCount\<close> that fits in Go's
  \<open>int\<close>), \<open>getListeners\<close> returns and its result is the listeners of exactly the
  descriptors of the range whose conversion succeeded: a descriptor whose conversion
  fails is left out and the loop goes on. The result is in strictly ascending descriptor
  order and is at most \<open>listenFdCount\<close> long.
\<close>

theorem getListeners_inherited:
  assumes count: "0 <=s listenFdCount s"
    and range: "sint listenFdStart + sint (listenFdCount s) < 2 ^ 63"
  shows "\<exists>fds. fst (getListeners e s) = map FdListener fds \<and>
           sorted_wrt (<s) fds \<and>
           set fds = {fd. listenFdStart <=s fd \<and> fd <s listenFdStart + listenFdCount s \<and>
                          fileListener e fd = None} \<and>
           int (length fds) \<le> sint (listenFdCount s)"
proof -
  have "0 \<le> sint (listenFdCount s)"
    using count by (simp add: word_sle_eq)
  moreover have "sint listenFdStart = 6"
    by (simp add: listenFdStart_def)
  ultimately have "sint (listenFdStart + listenFdCount s) = sint listenFdStart + sint (listenFdCount s)"
    using range by (simp add: sint_word_ariths signed_take_bit_int_eq_self)
  then have "max 0 (sint (listenFdStart + listenFdCount s) - sint listenFdStart)
               = sint (listenFdCount s)"
    using \<open>0 \<le> sint (listenFdCount s)\<close> by simp
  with getListeners_loop_spec [of e listenFdStart "[]" s] show ?thesis
    by (simp add: getListeners_def)
qed

lemma sample_listeners:
  "fst (getListeners sample_env (Prepare sample_env init_state)) = [FdListener 6, FdListener 8]"
  by (simp add: sample_prepared getListeners_def listenFdStart_def)
     (simp add: getListeners_loop.simps emit_def sample_env_def word_sless_alt listenFdStart_def)

theorem getListeners_inherited_witness:
  "0 <=s listenFdCount (Prepare sample_env init_state) \<and>
   sint listenFdStart + sint (listenFdCount (Prepare sample_env init_state)) < 2 ^ 63 \<and>
   fileListener sample_env 7 \<noteq> None \<and>
   fst (getListeners sample_env (Prepare sample_env init_state)) = [FdListener 6, FdListener 8]"
proof -
  have count: "0 <=s listenFdCount (Prepare sample_env init_state)"
    by (simp add: sample_prepared word_sle_eq)
  have range: "sint listenFdStart + sint (listenFdCount (Prepare sample_env init_state)) < 2 ^ 63"
    by (simp add: sample_prepared listenFdStart_def)
  have "fileListener sample_env 7 \<noteq> None"
    by (simp add: sample_env_def)
  then show ?thesis
    using getListeners_inherited [OF count range, of sample_env] count range sample_listeners
    by simp
qed

lemma getListenersByAddrs_loop_ok:
  "(\<forall>j<length addrs. netListen e (acc @ map AddrListener (take j addrs)) (addrs ! j) = None) \<Longrightarrow>
   getListenersByAddrs_loop e addrs acc s =
     Inr (acc @ map AddrListener addrs, s\<lparr>trace := trace s @ map NetListen addrs\<rparr>)"
proof (induction addrs arbitrary: acc s)
  case Nil
  show ?case by simp
next
  case (Cons a addrs)
  from Cons.prems have first: "netListen e acc a = None"
    by (auto simp: All_less_Suc2)
  from Cons.prems
  have rest: "\<forall>j<length addrs.
      netListen e ((acc @ [AddrListener a]) @ map AddrListener (take j addrs)) (addrs ! j) = None"
    by (auto simp: All_less_Suc2)
  show ?case
    using first Cons.IH [OF rest] by (simp add: emit_def)
qed

lemma getListenersByAddrs_loop_fail:
  "i < length addrs \<Longrightarrow>
   netListen e (acc @ map AddrListener (take i addrs)) (addrs ! i) = Some err \<Longrightarrow>
   (\<forall>j<i. netListen e (acc @ map AddrListener (take j addrs)) (addrs ! j) = None) \<Longrightarrow>
   getListenersByAddrs_loop e addrs acc s =
     Inl (listen_panic err (addrs ! i), s\<lparr>trace := trace s @ map NetListen (take (Suc i) addrs)\<rparr>)"
proof (induction addrs arbitrary: i acc s)
  case Nil
  then show ?case by simp
next
  case (Cons a addrs)
  show ?case
  proof (cases i)
    case 0
    with Cons.prems show ?thesis by (simp add: emit_def)
  next
    case (Suc k)
    from Cons.prems Suc have first: "netListen e acc a = None"
      by (auto simp: All_less_Suc2)
    from Cons.prems Suc
    have k: "k < length addrs"
      and fail: "netListen e ((acc @ [AddrListener a]) @ map AddrListener (take k addrs)) (addrs ! k) = Some err"
      and before: "\<forall>j<k. netListen e ((acc @ [AddrListener a]) @ map AddrListener (take j addrs)) (addrs ! j) = None"
      by (auto simp: All_less_Suc2)
    show ?thesis
      using first Suc Cons.IH [OF k fail before] by (simp add: emit_def)
  qed
qed

text \<open>
  C7. In standalone mode, whatever the address list: when the bind of some address fails
  (given the addresses bound before it), \<open>getListenersByAddrs\<close> panics at the first such
  address, no later address is tried, and the caller gets only the panic, never the
  listeners bound so far. When every bind succeeds the result is one listener per
  address, in the order of the list.
\<close>

theorem getListenersByAddrs_all_or_nothing:
  "((\<exists>i<length addrs. netListen e (map AddrListener (take i addrs)) (addrs ! i) \<noteq> None) \<longrightarrow>
      (\<exists>i err. i < length addrs \<and>
         getListenersByAddrs e addrs s =
           Inl (listen_panic err (addrs ! i),
                s\<lparr>trace := trace s @ map NetListen (take (Suc i) addrs)\<rparr>))) \<and>
   ((\<forall>i<length addrs. netListen e (map AddrListener (take i addrs)) (addrs ! i) = None) \<longrightarrow>
      getListenersByAddrs e addrs s =
        Inr (map AddrListener addrs, s\<lparr>trace := trace s @ map NetListen addrs\<rparr>))"
proof (intro conjI impI)
  let ?fails = "\<lambda>i. i < length addrs \<and> netListen e (map AddrListener (take i addrs)) (addrs ! i) \<noteq> None"
  assume "\<exists>i<length addrs. netListen e (map AddrListener (take i addrs)) (addrs ! i) \<noteq> None"
  then have ex: "\<exists>i. ?fails i" by blast
  define i where "i = (LEAST i. ?fails i)"
  have i: "?fails i" unfolding i_def using ex by (rule LeastI_ex)
  then obtain err where err: "netListen e ([] @ map AddrListener (take i addrs)) (addrs ! i) = Some err"
    by auto
  have before: "\<forall>j<i. netListen e ([] @ map AddrListener (take j addrs)) (addrs ! j) = None"
  proof (intro allI impI)
    fix j assume "j < i"
    then have "\<not> ?fails j" unfolding i_def by (rule not_less_Least)
    with \<open>j < i\<close> i show "netListen e ([] @ map AddrListener (take j addrs)) (addrs ! j) = None"
      by simp
  qed
  from i have "i < length addrs" by simp
  from getListenersByAddrs_loop_fail [OF this err before, of s] this
  show "\<exists>i err. i < length addrs \<and>
         getListenersByAddrs e addrs s =
           Inl (listen_panic err (addrs ! i),
                s\<lparr>trace := trace s @ map NetListen (take (Suc i) addrs)\<rparr>)"
    unfolding getListenersByAddrs_def by blast
next
  assume "\<forall>i<length addrs. netListen e (map AddrListener (take i addrs)) (addrs ! i) = None"
  then show "getListenersByAddrs e addrs s =
        Inr (map AddrListener addrs, s\<lparr>trace := trace s @ map NetListen addrs\<rparr>)"
    using getListenersByAddrs_loop_ok [of addrs e "[]" s] by (simp add: getListenersByAddrs_def)
qed

theorem getListenersByAddrs_all_or_nothing_witness:
  "netListen sample_env [AddrListener '':8080''] '':80'' \<noteq> None \<and>
   getListenersByAddrs sample_env ['':8080'', '':80'', '':8081''] init_state =
     Inl (listen_panic ''permission denied'' '':80'',
          init_state\<lparr>trace := [NetListen '':8080'', NetListen '':80'']\<rparr>) \<and>
   getListenersByAddrs sample_env ['':8080'', '':8081''] init_state =
     Inr ([AddrListener '':8080'', AddrListener '':8081''],
          init_state\<lparr>trace := [NetListen '':8080'', NetListen '':8081'']\<rparr>)"
proof -
  have bad: "\<exists>i<length ['':8080'', '':80'', '':8081''].
     netListen sample_env (map AddrListener (take i ['':8080'', '':80'', '':8081'']))
       (['':8080'', '':80'', '':8081''] ! i) \<noteq> None"
    by (intro exI [of _ 1]) (simp add: sample_env_def)
  have good: "\<forall>i<length ['':8080'', '':8081''].
     netListen sample_env (map AddrListener (take i ['':8080'', '':8081'']))
       (['':8080'', '':8081''] ! i) = None"
    by (simp add: sample_env_def All_less_Suc2 numeral_2_eq_2)
  have run: "getListenersByAddrs sample_env ['':8080'', '':80'', '':8081''] init_state =
     Inl (listen_panic ''permission denied'' '':80'',
          init_state\<lparr>trace := [NetListen '':8080'', NetListen '':80'']\<rparr>)"
    by (simp add: getListenersByAddrs_def emit_def sample_env_def init_state_def)
  show ?thesis
    using getListenersByAddrs_all_or_nothing [of "['':8080'', '':80'', '':8081'']" sample_env init_state]
      getListenersByAddrs_all_or_nothing [of "['':8080'', '':8081'']" sample_env init_state]
      bad good run
    by (simp add: sample_env_def init_state_def)
qed

section \<open>The shutdown monitor\<close>

subsection \<open>The drain loop\<close>

lemma counter_step_fields [simp]:
  "trace (counter_step s x) = trace s"
  "waitExit (counter_step s x) = waitExit s"
  "stopping (counter_step s x) = stopping s"
  by (cases x; simp add: connCountInc_def connCountDec_def)+

lemma counter_run_fields [simp]:
  "trace (counter_run ops s) = trace s"
  "waitExit (counter_run ops s) = waitExit s"
  "stopping (counter_run ops s) = stopping s"
  by (induction ops arbitrary: s; simp)+

lemma emit_fields [simp]:
  "trace (emit ev s) = trace s @ [ev]"
  "waitExit (emit ev s) = waitExit s"
  "stopping (emit ev s) = stopping s"
  "connCount (emit ev s) = connCount s"
  by (simp_all add: emit_def)

lemma counter_step_connCount:
  "connCount s = connCount t \<Longrightarrow> connCount (counter_step s x) = connCount (counter_step t x)"
  by (cases x) (simp_all add: connCountInc_def connCountDec_def)

lemma counter_run_connCount:
  "connCount s = connCount t \<Longrightarrow> connCount (counter_run ops s) = connCount (counter_run ops t)"
proof (induction ops arbitrary: s t)
  case Nil
  then show ?case by simp
next
  case (Cons x ops)
  from Cons.prems have "connCount (counter_step s x) = connCount (counter_step t x)"
    by (rule counter_step_connCount)
  from Cons.IH [OF this] show ?case by simp
qed

lemma polled_connCount:
  "connCount s = connCount t \<Longrightarrow> polled e k s j = polled e k t j"
proof (induction j arbitrary: k s t)
  case 0
  then have "connCount (counter_run (serving e k) s) = connCount (counter_run (serving e k) t)"
    by (rule counter_run_connCount)
  then show ?case by simp
next
  case (Suc j)
  from Suc.prems have "connCount (counter_run (serving e k) s) = connCount (counter_run (serving e k) t)"
    by (rule counter_run_connCount)
  from Suc.IH [OF this] show ?case by simp
qed

lemma drain_drained:
  "connCount (counter_run (serving e k) s) <=s 0 \<Longrightarrow>
   drain (Suc fuel) e k i s =
     (Returned, emit (ReadConnCount (connCount (counter_run (serving e k) s)))
                  (counter_run (serving e k) s))"
  by (simp add: Let_def)

lemma drain_events:
  "\<exists>evs. trace (snd (drain fuel e k i s)) = trace s @ evs \<and>
     (\<forall>ev \<in> set evs. (\<exists>c. ev = ReadConnCount c) \<or> ev = Sleep \<or> (\<exists>l. ev = Log l)) \<and>
     (0 < fuel \<longrightarrow> (\<exists>rest. evs = ReadConnCount (polled e k s 0) # rest)) \<and>
     waitExit (snd (drain fuel e k i s)) = waitExit s \<and>
     stopping (snd (drain fuel e k i s)) = stopping s \<and>
     fst (drain fuel e k i s) \<in> {Returned, OutOfFuel}"
proof (induction fuel arbitrary: k i s)
  case 0
  show ?case by simp
next
  case (Suc fuel)
  let ?s1 = "counter_run (serving e k) s"
  let ?c = "connCount ?s1"
  let ?s2 = "emit (ReadConnCount ?c) ?s1"
  let ?s4 = "emit (Log (LogExiting ?c (i + 1))) (emit Sleep ?s2)"
  consider (drained) "?c <=s 0"
    | (forced) "\<not> ?c <=s 0" "0 <s waitExit s \<and> waitExit s <=s i + 1"
    | (again) "\<not> ?c <=s 0" "\<not> (0 <s waitExit s \<and> waitExit s <=s i + 1)"
    by blast
  then show ?case
  proof cases
    case drained
    then have eq: "drain (Suc fuel) e k i s = (Returned, ?s2)"
      by (simp add: Let_def)
    show ?thesis
      unfolding eq by (intro exI [of _ "[ReadConnCount ?c]"]) simp
  next
    case forced
    then have eq: "drain (Suc fuel) e k i s
                     = (Returned, emit (Log (LogWaitingTooLong (waitExit s))) ?s4)"
      by (simp add: Let_def)
    show ?thesis
      unfolding eq
      by (intro exI [of _ "[ReadConnCount ?c, Sleep, Log (LogExiting ?c (i + 1)),
                           Log (LogWaitingTooLong (waitExit s))]"]) simp
  next
    case again
    then have eq: "drain (Suc fuel) e k i s = drain fuel e (Suc k) (i + 1) ?s4"
      by (auto simp: Let_def)
    from Suc.IH [of "Suc k" "i + 1" ?s4]
    obtain evs where evs: "trace (snd (drain fuel e (Suc k) (i + 1) ?s4)) = trace ?s4 @ evs"
      "\<forall>ev \<in> set evs. (\<exists>c. ev = ReadConnCount c) \<or> ev = Sleep \<or> (\<exists>l. ev = Log l)"
      "waitExit (snd (drain fuel e (Suc k) (i + 1) ?s4)) = waitExit ?s4"
      "stopping (snd (drain fuel e (Suc k) (i + 1) ?s4)) = stopping ?s4"
      "fst (drain fuel e (Suc k) (i + 1) ?s4) \<in> {Returned, OutOfFuel}"
      by blast
    show ?thesis
      unfolding eq using evs
      by (intro exI [of _ "[ReadConnCount ?c, Sleep, Log (LogExiting ?c (i + 1))] @ evs"]) simp
  qed
qed


lemma sleeps_simps [simp]:
  "sleeps [] = 0"
  "sleeps (Sleep # evs) = Suc (sleeps evs)"
  "sleeps (ReadConnCount c # evs) = sleeps evs"
  "sleeps (Log l # evs) = sleeps evs"
  "sleeps (evs @ evs') = sleeps evs + sleeps evs'"
  by (simp_all add: sleeps_def)

lemma events_since_append [simp]: "trace s' = trace s @ evs \<Longrightarrow> events_since s s' = evs"
  by (simp add: events_since_def)

lemma drain_steps:
  assumes "\<not> connCount (counter_run (serving e k) s) <=s 0"
    and "\<not> (0 <s waitExit s \<and> waitExit s <=s i + 1)"
  shows "drain (Suc fuel) e k i s =
     drain fuel e (Suc k) (i + 1)
        (emit (Log (LogExiting (connCount (counter_run (serving e k) s)) (i + 1)))
           (emit Sleep
              (emit (ReadConnCount (connCount (counter_run (serving e k) s)))
                 (counter_run (serving e k) s))))"
  using assms by (auto simp: Let_def)

lemma drain_steps_events:
  assumes "\<not> connCount (counter_run (serving e k) s) <=s 0"
    and "\<not> (0 <s waitExit s \<and> waitExit s <=s i + 1)"
  shows "\<exists>s4 evs. drain (Suc fuel) e k i s = drain fuel e (Suc k) (i + 1) s4 \<and>
           waitExit s4 = waitExit s \<and>
           connCount s4 = connCount (counter_run (serving e k) s) \<and>
           trace (snd (drain fuel e (Suc k) (i + 1) s4)) = trace s4 @ evs \<and>
           events_since s (snd (drain (Suc fuel) e k i s)) =
             [ReadConnCount (connCount (counter_run (serving e k) s)), Sleep,
              Log (LogExiting (connCount (counter_run (serving e k) s)) (i + 1))] @
             events_since s4 (snd (drain fuel e (Suc k) (i + 1) s4))"
proof -
  let ?c = "connCount (counter_run (serving e k) s)"
  let ?s4 = "emit (Log (LogExiting ?c (i + 1)))
               (emit Sleep (emit (ReadConnCount ?c) (counter_run (serving e k) s)))"
  obtain evs where evs: "trace (snd (drain fuel e (Suc k) (i + 1) ?s4)) = trace ?s4 @ evs"
    using drain_events [of fuel e "Suc k" "i + 1" ?s4] by blast
  have eq: "drain (Suc fuel) e k i s = drain fuel e (Suc k) (i + 1) ?s4"
    using assms by (rule drain_steps)
  have "trace (snd (drain (Suc fuel) e k i s)) =
          trace s @ [ReadConnCount ?c, Sleep, Log (LogExiting ?c (i + 1))] @ evs"
    unfolding eq using evs by simp
  then have "events_since s (snd (drain (Suc fuel) e k i s)) =
          [ReadConnCount ?c, Sleep, Log (LogExiting ?c (i + 1))] @ evs"
    by (rule events_since_append)
  moreover have "events_since ?s4 (snd (drain fuel e (Suc k) (i + 1) ?s4)) = evs"
    using evs by (rule events_since_append)
  ultimately show ?thesis
    using eq evs by (intro exI [of _ ?s4] exI [of _ evs]) simp
qed

lemma drain_deadline:
  "0 <s waitExit s \<Longrightarrow> 0 \<le> sint i \<Longrightarrow> sint i < sint (waitExit s) \<Longrightarrow>
   nat (sint (waitExit s) - sint i) \<le> fuel \<Longrightarrow>
   fst (drain fuel e k i s) = Returned \<and>
   int (sleeps (events_since s (snd (drain fuel e k i s)))) \<le> sint (waitExit s) - sint i"
proof (induction fuel arbitrary: k i s)
  case 0
  then show ?case by simp
next
  case (Suc fuel)
  let ?c = "connCount (counter_run (serving e k) s)"
  have step: "sint (i + 1) = sint i + 1"
    using Suc.prems(3) sint_lt [of "waitExit s"] by (intro sint_inc) simp
  consider (drained) "?c <=s 0"
    | (forced) "\<not> ?c <=s 0" "0 <s waitExit s \<and> waitExit s <=s i + 1"
    | (again) "\<not> ?c <=s 0" "\<not> (0 <s waitExit s \<and> waitExit s <=s i + 1)"
    by blast
  then show ?case
  proof cases
    case drained
    then have "drain (Suc fuel) e k i s =
        (Returned, emit (ReadConnCount ?c) (counter_run (serving e k) s))"
      by (rule drain_drained)
    then show ?thesis using Suc.prems by (simp add: events_since_def)
  next
    case forced
    then have "drain (Suc fuel) e k i s =
        (Returned, emit (Log (LogWaitingTooLong (waitExit s)))
           (emit (Log (LogExiting ?c (i + 1)))
              (emit Sleep (emit (ReadConnCount ?c) (counter_run (serving e k) s)))))"
      by (simp add: Let_def)
    then show ?thesis using Suc.prems by (simp add: events_since_def)
  next
    case again
    from drain_steps_events [OF again, of fuel]
    obtain s4 evs where s4: "drain (Suc fuel) e k i s = drain fuel e (Suc k) (i + 1) s4"
      "waitExit s4 = waitExit s"
      "events_since s (snd (drain (Suc fuel) e k i s)) =
         [ReadConnCount ?c, Sleep, Log (LogExiting ?c (i + 1))] @
         events_since s4 (snd (drain fuel e (Suc k) (i + 1) s4))"
      by blast
    have less: "sint (i + 1) < sint (waitExit s)"
      using again(2) Suc.prems(1) by (simp add: word_sle_eq)
    have "fst (drain fuel e (Suc k) (i + 1) s4) = Returned \<and>
          int (sleeps (events_since s4 (snd (drain fuel e (Suc k) (i + 1) s4))))
            \<le> sint (waitExit s4) - sint (i + 1)"
      using Suc.prems less step by (intro Suc.IH) (simp_all add: s4(2))
    then show ?thesis
      using s4 step by simp
  qed
qed

lemma drain_no_deadline:
  "waitExit s <=s 0 \<Longrightarrow>
   fst (drain fuel e k i s) = (if \<exists>j<fuel. polled e k s j <=s 0 then Returned else OutOfFuel) \<and>
   (fst (drain fuel e k i s) = Returned \<longrightarrow> connCount (snd (drain fuel e k i s)) <=s 0)"
proof (induction fuel arbitrary: k i s)
  case 0
  show ?case by simp
next
  case (Suc fuel)
  let ?c = "connCount (counter_run (serving e k) s)"
  have never: "\<not> (0 <s waitExit s \<and> waitExit s <=s i + 1)"
    using Suc.prems by (simp add: word_sle_eq word_sless_alt)
  show ?case
  proof (cases "?c <=s 0")
    case True
    then have "drain (Suc fuel) e k i s =
        (Returned, emit (ReadConnCount ?c) (counter_run (serving e k) s))"
      by (rule drain_drained)
    moreover have "\<exists>j<Suc fuel. polled e k s j <=s 0"
      using True by (intro exI [of _ 0]) simp
    ultimately show ?thesis using True by simp
  next
    case False
    from drain_steps_events [OF False never, of fuel]
    obtain s4 where s4: "drain (Suc fuel) e k i s = drain fuel e (Suc k) (i + 1) s4"
      "waitExit s4 = waitExit s" "connCount s4 = ?c"
      by blast
    have "polled e k s (Suc j) = polled e (Suc k) s4 j" for j
      using polled_connCount [of s4 "counter_run (serving e k) s" e "Suc k" j] s4(3) by simp
    then have "(\<exists>j<Suc fuel. polled e k s j <=s 0) = (\<exists>j<fuel. polled e (Suc k) s4 j <=s 0)"
      using False by (simp add: Ex_less_Suc2)
    moreover have "waitExit s4 <=s 0"
      using Suc.prems s4(2) by simp
    ultimately show ?thesis
      using Suc.IH [of s4 "Suc k" "i + 1"] s4(1) by simp
  qed
qed

lemma drain_returned:
  "fst (drain fuel e k i s) = Returned \<Longrightarrow>
   (0 <s waitExit s \<longrightarrow> 0 \<le> sint i \<and> sint i < sint (waitExit s)) \<Longrightarrow>
   (\<exists>evs0 c. events_since s (snd (drain fuel e k i s)) = evs0 @ [ReadConnCount c] \<and> c <=s 0) \<or>
   (0 <s waitExit s \<and>
    int (sleeps (events_since s (snd (drain fuel e k i s)))) = sint (waitExit s) - sint i \<and>
    (\<exists>evs0. events_since s (snd (drain fuel e k i s))
              = evs0 @ [Log (LogWaitingTooLong (waitExit s))]))"
proof (induction fuel arbitrary: k i s)
  case 0
  then show ?case by simp
next
  case (Suc fuel)
  let ?c = "connCount (counter_run (serving e k) s)"
  consider (drained) "?c <=s 0"
    | (forced) "\<not> ?c <=s 0" "0 <s waitExit s \<and> waitExit s <=s i + 1"
    | (again) "\<not> ?c <=s 0" "\<not> (0 <s waitExit s \<and> waitExit s <=s i + 1)"
    by blast
  then show ?case
  proof cases
    case drained
    then have "drain (Suc fuel) e k i s =
        (Returned, emit (ReadConnCount ?c) (counter_run (serving e k) s))"
      by (rule drain_drained)
    then have "events_since s (snd (drain (Suc fuel) e k i s)) = [] @ [ReadConnCount ?c]"
      by (simp add: events_since_def)
    with drained show ?thesis by blast
  next
    case forced
    then have inv: "0 \<le> sint i" "sint i < sint (waitExit s)"
      using Suc.prems(2) by simp_all
    have step: "sint (i + 1) = sint i + 1"
      using inv(2) sint_lt [of "waitExit s"] by (intro sint_inc) simp
    have w: "sint (waitExit s) = sint i + 1"
      using forced(2) inv(2) step by (simp add: word_sle_eq)
    from forced have "drain (Suc fuel) e k i s =
        (Returned, emit (Log (LogWaitingTooLong (waitExit s)))
           (emit (Log (LogExiting ?c (i + 1)))
              (emit Sleep (emit (ReadConnCount ?c) (counter_run (serving e k) s)))))"
      by (simp add: Let_def)
    then have ev: "events_since s (snd (drain (Suc fuel) e k i s)) =
        [ReadConnCount ?c, Sleep, Log (LogExiting ?c (i + 1))] @ [Log (LogWaitingTooLong (waitExit s))]"
      by (simp add: events_since_def)
    have "int (sleeps (events_since s (snd (drain (Suc fuel) e k i s)))) = sint (waitExit s) - sint i"
      unfolding ev using w by simp
    with forced(2) ev show ?thesis by blast
  next
    case again
    from drain_steps_events [OF again, of fuel]
    obtain s4 evs where s4: "drain (Suc fuel) e k i s = drain fuel e (Suc k) (i + 1) s4"
      "waitExit s4 = waitExit s"
      "events_since s (snd (drain (Suc fuel) e k i s)) =
         [ReadConnCount ?c, Sleep, Log (LogExiting ?c (i + 1))] @
         events_since s4 (snd (drain fuel e (Suc k) (i + 1) s4))"
      by blast
    let ?since4 = "events_since s4 (snd (drain fuel e (Suc k) (i + 1) s4))"
    let ?head = "[ReadConnCount ?c, Sleep, Log (LogExiting ?c (i + 1))]"
    have inv': "0 <s waitExit s4 \<longrightarrow> 0 \<le> sint (i + 1) \<and> sint (i + 1) < sint (waitExit s4)"
    proof
      assume "0 <s waitExit s4"
      then have pos: "0 <s waitExit s" by (simp add: s4(2))
      with Suc.prems(2) have inv: "0 \<le> sint i" "sint i < sint (waitExit s)" by simp_all
      have step: "sint (i + 1) = sint i + 1"
        using inv(2) sint_lt [of "waitExit s"] by (intro sint_inc) simp
      show "0 \<le> sint (i + 1) \<and> sint (i + 1) < sint (waitExit s4)"
        using again(2) pos inv step by (simp add: word_sle_eq s4(2))
    qed
    have ret: "fst (drain fuel e (Suc k) (i + 1) s4) = Returned"
      using Suc.prems(1) s4(1) by simp
    from Suc.IH [OF ret inv']
    consider (zero) evs0 c where "?since4 = evs0 @ [ReadConnCount c]" "c <=s 0"
      | (late) evs0 where "0 <s waitExit s4"
          "int (sleeps ?since4) = sint (waitExit s4) - sint (i + 1)"
          "?since4 = evs0 @ [Log (LogWaitingTooLong (waitExit s4))]"
      by blast
    then show ?thesis
    proof cases
      case zero
      then have "events_since s (snd (drain (Suc fuel) e k i s)) = (?head @ evs0) @ [ReadConnCount c]"
        unfolding s4(3) by simp
      with zero(2) show ?thesis by blast
    next
      case late
      then have pos: "0 <s waitExit s" by (simp add: s4(2))
      with Suc.prems(2) have "sint i < sint (waitExit s)" by simp
      then have step: "sint (i + 1) = sint i + 1"
        using sint_lt [of "waitExit s"] by (intro sint_inc) simp
      have "events_since s (snd (drain (Suc fuel) e k i s))
              = (?head @ evs0) @ [Log (LogWaitingTooLong (waitExit s))]"
        unfolding s4(3) using late(3) by (simp add: s4(2))
      moreover have "int (sleeps (events_since s (snd (drain (Suc fuel) e k i s))))
                       = sint (waitExit s) - sint i"
        unfolding s4(3) using late(2) step by (simp add: s4(2))
      ultimately show ?thesis using pos by blast
    qed
  qed
qed

text \<open>
  C3. The drain loop ends as the specification says.
  \<^item> A turn that reads a counter \<open>\<le> 0\<close> leaves the loop at once: the read is the only
    event of that turn, there is no sleep.
  \<^item> The deadline \<open>waitExit\<close> is 10 when the process starts. When it is positive, the
    loop started by \<open>monitorMaster\<close> (turn 0, \<open>i = 0\<close>) has returned after at most
    \<open>waitExit\<close> turns, whatever the serving goroutines do to the counter, and has slept
    at most \<open>waitExit\<close> times.
  \<^item> When the deadline is 0 or negative the loop is never left by force: within any
    number of turns it has returned exactly when one of its reads found the counter
    \<open>\<le> 0\<close>, and then the counter it last read is \<open>\<le> 0\<close>; as long as every read finds
    the counter positive it goes on.
\<close>

theorem drain_terminates:
  "(connCount (counter_run (serving e k) s) <=s 0 \<longrightarrow>
      drain (Suc fuel) e k i s =
        (Returned, emit (ReadConnCount (connCount (counter_run (serving e k) s)))
                     (counter_run (serving e k) s))) \<and>
   waitExit init_state = 10 \<and>
   (0 <s waitExit s \<and> nat (sint (waitExit s)) \<le> fuel \<longrightarrow>
      fst (drain fuel e 0 0 s) = Returned \<and>
      int (sleeps (events_since s (snd (drain fuel e 0 0 s)))) \<le> sint (waitExit s)) \<and>
   (waitExit s <=s 0 \<longrightarrow>
      fst (drain fuel e 0 0 s) =
        (if \<exists>j<fuel. polled e 0 s j <=s 0 then Returned else OutOfFuel) \<and>
      (fst (drain fuel e 0 0 s) = Returned \<longrightarrow> connCount (snd (drain fuel e 0 0 s)) <=s 0))"
proof (intro conjI impI)
  assume "connCount (counter_run (serving e k) s) <=s 0"
  then show "drain (Suc fuel) e k i s =
        (Returned, emit (ReadConnCount (connCount (counter_run (serving e k) s)))
                     (counter_run (serving e k) s))"
    by (rule drain_drained)
next
  show "waitExit init_state = 10" by (simp add: init_state_def)
next
  assume a: "0 <s waitExit s \<and> nat (sint (waitExit s)) \<le> fuel"
  then have "0 < sint (waitExit s)" by (simp add: word_sless_alt)
  with a drain_deadline [of s 0 fuel e 0]
  show "fst (drain fuel e 0 0 s) = Returned"
    and "int (sleeps (events_since s (snd (drain fuel e 0 0 s)))) \<le> sint (waitExit s)"
    by simp_all
next
  assume a: "waitExit s <=s 0"
  from drain_no_deadline [OF a, of fuel e 0 0]
  show "fst (drain fuel e 0 0 s) =
        (if \<exists>j<fuel. polled e 0 s j <=s 0 then Returned else OutOfFuel)"
    by simp
  assume "fst (drain fuel e 0 0 s) = Returned"
  with drain_no_deadline [OF a, of fuel e 0 0]
  show "connCount (snd (drain fuel e 0 0 s)) <=s 0"
    by simp
qed

lemma sample_drain_idle:
  "connCount (counter_run (serving sample_env 2) init_state) <=s 0"
  by (simp add: sample_env_def init_state_def)

lemma sample_drain_forever:
  "fst (drain 4 sample_env 0 0 (init_state\<lparr>waitExit := 0\<rparr>)) = OutOfFuel"
  by (simp add: eval_nat_numeral Let_def sample_env_def init_state_def emit_def
      connCountInc_def connCountDec_def word_sle_eq word_sless_alt)

theorem drain_terminates_witness:
  "connCount (counter_run (serving sample_env 2) init_state) <=s 0 \<and>
   drain (Suc 0) sample_env 2 0 init_state = (Returned, init_state\<lparr>trace := [ReadConnCount 0]\<rparr>) \<and>
   0 <s waitExit init_state \<and> nat (sint (waitExit init_state)) \<le> 10 \<and>
   fst (drain 10 sample_env 0 0 init_state) = Returned \<and>
   int (sleeps (events_since init_state (snd (drain 10 sample_env 0 0 init_state)))) \<le> 10 \<and>
   waitExit (init_state\<lparr>waitExit := 0\<rparr>) <=s 0 \<and>
   fst (drain 4 sample_env 0 0 (init_state\<lparr>waitExit := 0\<rparr>)) = OutOfFuel"
proof -
  have ten: "0 <s waitExit init_state \<and> nat (sint (waitExit init_state)) \<le> 10"
    by (simp add: init_state_def word_sless_alt)
  have idle: "drain (Suc 0) sample_env 2 0 init_state
                = (Returned, init_state\<lparr>trace := [ReadConnCount 0]\<rparr>)"
    using drain_terminates [of sample_env 2 init_state 0 0] sample_drain_idle
    by (simp add: sample_env_def init_state_def emit_def)
  have forced: "fst (drain 10 sample_env 0 0 init_state) = Returned \<and>
      int (sleeps (events_since init_state (snd (drain 10 sample_env 0 0 init_state)))) \<le> 10"
    using drain_terminates [of sample_env 0 init_state 10 0] ten
    by (simp add: init_state_def)
  have zero: "waitExit (init_state\<lparr>waitExit := 0\<rparr>) <=s 0"
    by simp
  have never: "fst (drain 4 sample_env 0 0 (init_state\<lparr>waitExit := 0\<rparr>)) = OutOfFuel"
    using drain_terminates [of sample_env 0 "init_state\<lparr>waitExit := 0\<rparr>" 4 0] zero
      sample_drain_forever
    by simp
  show ?thesis
    using sample_drain_idle idle ten forced zero never by simp
qed

subsection \<open>\<open>monitorMaster\<close>\<close>

lemma monitor_stop_close:
  "foldl (\<lambda>s' ln. emit (ListenerClose ln) (emit (Log LogClosingListener) s')) s listeners =
     s\<lparr>trace := trace s @ concat (map (\<lambda>ln. [Log LogClosingListener, ListenerClose ln]) listeners)\<rparr>"
  by (induction listeners arbitrary: s) (simp_all add: emit_def)

lemma monitor_stop_events:
  "monitor_stop listeners onStopHandler s = s\<lparr>trace := trace s @ stop_events listeners onStopHandler\<rparr>"
proof (cases onStopHandler)
  case None
  then show ?thesis by (simp add: monitor_stop_def stop_events_def monitor_stop_close)
next
  case (Some h)
  then show ?thesis by (simp add: monitor_stop_def stop_events_def emit_def)
qed

lemma stop_events_no_CallStop: "CallStop h b \<notin> set (stop_events listeners onStopHandler)"
  by (cases onStopHandler) (auto simp: stop_events_def)

lemma monitorMaster_run:
  fixes s s5 :: state and listeners :: "listener list" and onStopHandler :: "hook option"
    and rerr :: "string option"
  assumes "fileConn e stateFd = None" and "connRead e = Some (n, rerr)"
  defines "s5 \<equiv> s\<lparr>stopping := True,
                      trace := trace s @ read_events rerr @ [StoreStopping True] @
                               stop_events listeners onStopHandler\<rparr>"
  shows "monitorMaster fuel e listeners onStopHandler stopHandler s =
            (if fst (drain fuel e 0 0 s5) = Returned then
               (case stopHandler of
                  None \<Rightarrow> (Panicked nil_dereference, emit (Log LogExitingNow) (snd (drain fuel e 0 0 s5)))
                | Some h \<Rightarrow>
                    (Returned,
                     emit (CallStop h True) (emit (Log LogExitingNow) (snd (drain fuel e 0 0 s5)))))
             else drain fuel e 0 0 s5)"
proof -
  have s5: "monitor_stop listeners onStopHandler
              (emit (StoreStopping True)
                 ((case rerr of
                     Some err \<Rightarrow> emit (Log (LogDisconnected err))
                                   (emit ConnRead (emit (Log LogWaiting)
                                      (emit (FileConn stateFd) (emit (NewFile stateFd) s))))
                   | None \<Rightarrow> emit ConnRead (emit (Log LogWaiting)
                                (emit (FileConn stateFd) (emit (NewFile stateFd) s))))
                  \<lparr>stopping := True\<rparr>)) = s5"
    unfolding s5_def
    by (cases rerr) (simp_all add: monitor_stop_events emit_def read_events_def)
  show ?thesis
    unfolding monitorMaster_def Let_def
    by (cases "drain fuel e 0 0 s5")
       (simp add: assms(1,2) s5 split: outcome.splits option.splits)
qed

lemma sample_monitor:
  "monitorMaster 10 sample_env [FdListener 6, FdListener 8] None (Some 1) init_state =
    (Returned,
     init_state\<lparr>connCount := 1, stopping := True,
       trace :=
         [NewFile 5, FileConn 5, Log LogWaiting, ConnRead,
          Log (LogDisconnected ''EOF''), StoreStopping True,
          Log LogClosingListener, ListenerClose (FdListener 6),
          Log LogClosingListener, ListenerClose (FdListener 8),
          ReadConnCount 2, Sleep, Log (LogExiting 2 1),
          ReadConnCount 1, Sleep, Log (LogExiting 1 2),
          ReadConnCount 1, Sleep, Log (LogExiting 1 3),
          ReadConnCount 1, Sleep, Log (LogExiting 1 4),
          ReadConnCount 1, Sleep, Log (LogExiting 1 5),
          ReadConnCount 1, Sleep, Log (LogExiting 1 6),
          ReadConnCount 1, Sleep, Log (LogExiting 1 7),
          ReadConnCount 1, Sleep, Log (LogExiting 1 8),
          ReadConnCount 1, Sleep, Log (LogExiting 1 9),
          ReadConnCount 1, Sleep, Log (LogExiting 1 10),
          Log (LogWaitingTooLong 10), Log LogExitingNow, CallStop 1 True]\<rparr>)"
  by (simp add: monitorMaster_def monitor_stop_def eval_nat_numeral Let_def sample_env_def
      init_state_def emit_def stateFd_def connCountInc_def connCountDec_def
      word_sle_eq word_sless_alt)

text \<open>
  C2. When \<open>net.FileConn\<close> gave a connection and the read of the control connection
  returns, with any byte count and with or without an error, \<open>monitorMaster\<close> goes on in
  the same way; an error only adds the log line \<open>disconnected from master\<close>. It stores
  \<open>true\<close> in \<open>stopping\<close>, then calls the stop callback when there is one and otherwise
  closes every listener it was given, in order; only then the drain loop reads the
  counter for the first time: the events up to that read are exactly the ones listed,
  and none of them is a read of the counter.
\<close>

theorem monitorMaster_stops_before_drain:
  assumes conn: "fileConn e stateFd = None"
    and read: "connRead e = Some (n, rerr)"
  shows "\<exists>rest.
      events_since s (snd (monitorMaster (Suc fuel) e listeners onStopHandler stopHandler s)) =
        [NewFile stateFd, FileConn stateFd, Log LogWaiting, ConnRead] @
        (case rerr of Some err \<Rightarrow> [Log (LogDisconnected err)] | None \<Rightarrow> []) @
        [StoreStopping True] @
        (case onStopHandler of
           Some h \<Rightarrow> [CallOnStop h]
         | None \<Rightarrow> concat (map (\<lambda>ln. [Log LogClosingListener, ListenerClose ln]) listeners)) @
        ReadConnCount (polled e 0 s 0) # rest \<and>
      stopping (snd (monitorMaster (Suc fuel) e listeners onStopHandler stopHandler s))"
proof -
  let ?pre = "read_events rerr @ [StoreStopping True] @ stop_events listeners onStopHandler"
  let ?s5 = "s\<lparr>stopping := True, trace := trace s @ ?pre\<rparr>"
  let ?d = "drain (Suc fuel) e 0 0 ?s5"
  let ?m = "monitorMaster (Suc fuel) e listeners onStopHandler stopHandler s"
  have m: "?m =
      (if fst ?d = Returned then
         (case stopHandler of
            None \<Rightarrow> (Panicked nil_dereference, emit (Log LogExitingNow) (snd ?d))
          | Some h \<Rightarrow> (Returned, emit (CallStop h True) (emit (Log LogExitingNow) (snd ?d))))
       else ?d)"
    by (rule monitorMaster_run [OF conn read])
  from drain_events [of "Suc fuel" e 0 0 ?s5]
  obtain evs where evs: "trace (snd ?d) = trace ?s5 @ evs"
      "\<exists>rest. evs = ReadConnCount (polled e 0 ?s5 0) # rest"
      "stopping (snd ?d) = stopping ?s5"
    by auto
  have "polled e 0 ?s5 0 = polled e 0 s 0"
    by (rule polled_connCount) simp
  with evs(2) obtain rest where rest: "evs = ReadConnCount (polled e 0 s 0) # rest"
    by auto
  have "\<exists>tail. trace (snd ?m) = trace (snd ?d) @ tail \<and> stopping (snd ?m) = stopping (snd ?d)"
    unfolding m by (cases stopHandler) (simp_all del: drain.simps)
  then obtain tail where tail: "trace (snd ?m) = trace (snd ?d) @ tail"
    "stopping (snd ?m) = stopping (snd ?d)"
    by blast
  have "trace (snd ?m) = trace s @ (?pre @ ReadConnCount (polled e 0 s 0) # rest @ tail)"
    using tail(1) evs(1) rest by simp
  then have "events_since s (snd ?m) = ?pre @ ReadConnCount (polled e 0 s 0) # rest @ tail"
    by (rule events_since_append)
  moreover have "stopping (snd ?m)"
    using tail(2) evs(3) by simp
  ultimately show ?thesis
    by (intro exI [of _ "rest @ tail"]) (simp add: read_events_def stop_events_def)
qed

theorem monitorMaster_stops_before_drain_witness:
  "fileConn sample_env stateFd = None \<and>
   connRead sample_env = Some (0, Some ''EOF'') \<and>
   take 11 (events_since init_state
     (snd (monitorMaster (Suc 9) sample_env [FdListener 6, FdListener 8] None (Some 1) init_state))) =
     [NewFile 5, FileConn 5, Log LogWaiting, ConnRead,
      Log (LogDisconnected ''EOF''), StoreStopping True,
      Log LogClosingListener, ListenerClose (FdListener 6),
      Log LogClosingListener, ListenerClose (FdListener 8),
      ReadConnCount 2] \<and>
   stopping (snd (monitorMaster (Suc 9) sample_env [FdListener 6, FdListener 8] None (Some 1) init_state))"
proof -
  have conn: "fileConn sample_env stateFd = None"
    by (simp add: sample_env_def)
  have read: "connRead sample_env = Some (0, Some ''EOF'')"
    by (simp add: sample_env_def)
  have ten: "Suc 9 = 10" by simp
  show ?thesis
    using monitorMaster_stops_before_drain [OF conn read,
        of init_state 9 "[FdListener 6, FdListener 8]" None "Some 1"] conn read
    unfolding ten sample_monitor
    by (simp add: events_since_def init_state_def)
qed

lemma monitorMaster_returned:
  assumes ret: "monitorMaster fuel e listeners onStopHandler (Some h) s = (Returned, s')"
  shows "\<exists>evs. events_since s s' = evs @ [Log LogExitingNow, CallStop h True] \<and>
           (\<forall>h' b. CallStop h' b \<notin> set evs) \<and>
           ((\<exists>evs0 c. evs = evs0 @ [ReadConnCount c] \<and> c <=s 0) \<or>
            (0 <s waitExit s \<and> int (sleeps evs) = sint (waitExit s) \<and>
             (\<exists>evs0. evs = evs0 @ [Log (LogWaitingTooLong (waitExit s))])))"
proof -
  from ret obtain n rerr where conn: "fileConn e stateFd = None" and read: "connRead e = Some (n, rerr)"
    by (auto simp: monitorMaster_def Let_def split: option.splits)
  let ?pre = "read_events rerr @ [StoreStopping True] @ stop_events listeners onStopHandler"
  let ?s5 = "s\<lparr>stopping := True, trace := trace s @ ?pre\<rparr>"
  let ?d = "drain fuel e 0 0 ?s5"
  have m: "(Returned, s') =
      (if fst ?d = Returned
       then (Returned, emit (CallStop h True) (emit (Log LogExitingNow) (snd ?d)))
       else ?d)"
    unfolding ret [symmetric]
    by (subst monitorMaster_run [OF conn read]) simp
  have d: "fst ?d = Returned"
  proof (rule ccontr)
    assume "fst ?d \<noteq> Returned"
    with m have "(Returned, s') = ?d" by simp
    then have "fst ?d = Returned" by (metis fst_conv)
    with \<open>fst ?d \<noteq> Returned\<close> show False by simp
  qed
  with m have s': "s' = emit (CallStop h True) (emit (Log LogExitingNow) (snd ?d))"
    by simp
  from drain_events [of fuel e 0 0 ?s5]
  obtain devs where devs: "trace (snd ?d) = trace ?s5 @ devs"
      "\<forall>ev \<in> set devs. (\<exists>c. ev = ReadConnCount c) \<or> ev = Sleep \<or> (\<exists>l. ev = Log l)"
    by auto
  have since5: "events_since ?s5 (snd ?d) = devs"
    using devs(1) by (rule events_since_append)
  have "trace s' = trace s @ ((?pre @ devs) @ [Log LogExitingNow, CallStop h True])"
    unfolding s' using devs(1) by simp
  then have ev: "events_since s s' = (?pre @ devs) @ [Log LogExitingNow, CallStop h True]"
    by (rule events_since_append)
  have no_call: "\<forall>h' b. CallStop h' b \<notin> set (?pre @ devs)"
    using devs(2) stop_events_no_CallStop [of _ _ listeners onStopHandler]
    by (cases rerr) (auto simp: read_events_def)
  have pre_sleeps: "sleeps (?pre @ devs) = sleeps devs"
    by (cases rerr; cases onStopHandler)
       (simp_all add: sleeps_def read_events_def stop_events_def filter_concat comp_def)
  have "0 <s waitExit ?s5 \<longrightarrow> 0 \<le> sint (0::go_int) \<and> sint (0::go_int) < sint (waitExit ?s5)"
    by (simp add: word_sless_alt)
  from drain_returned [OF d this]
  have "(\<exists>evs0 c. ?pre @ devs = evs0 @ [ReadConnCount c] \<and> c <=s 0) \<or>
        (0 <s waitExit s \<and> int (sleeps (?pre @ devs)) = sint (waitExit s) \<and>
         (\<exists>evs0. ?pre @ devs = evs0 @ [Log (LogWaitingTooLong (waitExit s))]))"
    unfolding since5
  proof (elim disjE exE conjE)
    fix evs0 c
    assume "devs = evs0 @ [ReadConnCount c]" "c <=s 0"
    then have "?pre @ devs = (?pre @ evs0) @ [ReadConnCount c] \<and> c <=s 0" by simp
    then show ?thesis by blast
  next
    fix evs0
    assume a: "0 <s waitExit ?s5" "int (sleeps devs) = sint (waitExit ?s5) - sint (0::go_int)"
      "devs = evs0 @ [Log (LogWaitingTooLong (waitExit ?s5))]"
    then have "?pre @ devs = (?pre @ evs0) @ [Log (LogWaitingTooLong (waitExit s))]" by simp
    moreover have "int (sleeps (?pre @ devs)) = sint (waitExit s)"
      unfolding pre_sleeps using a(2) by simp
    ultimately show ?thesis using a(1) by auto
  qed
  with ev no_call show ?thesis
    by (intro exI [of _ "?pre @ devs"]) blast
qed

lemma drain_returns_iff:
  "(0 <s waitExit s \<longrightarrow> 0 \<le> sint i \<and> sint i < sint (waitExit s)) \<Longrightarrow>
   fst (drain fuel e k i s) =
     (if (\<exists>j<fuel. polled e k s j <=s 0) \<or>
         (0 <s waitExit s \<and> nat (sint (waitExit s) - sint i) \<le> fuel)
      then Returned else OutOfFuel)"
proof (induction fuel arbitrary: k i s)
  case 0
  then show ?case by (auto simp: word_sless_alt)
next
  case (Suc fuel)
  let ?c = "connCount (counter_run (serving e k) s)"
  consider (drained) "?c <=s 0"
    | (forced) "\<not> ?c <=s 0" "0 <s waitExit s \<and> waitExit s <=s i + 1"
    | (again) "\<not> ?c <=s 0" "\<not> (0 <s waitExit s \<and> waitExit s <=s i + 1)"
    by blast
  then show ?case
  proof cases
    case drained
    then have "drain (Suc fuel) e k i s =
        (Returned, emit (ReadConnCount ?c) (counter_run (serving e k) s))"
      by (rule drain_drained)
    moreover have "\<exists>j<Suc fuel. polled e k s j <=s 0"
      using drained by (intro exI [of _ 0]) simp
    ultimately show ?thesis by simp
  next
    case forced
    then have inv: "0 \<le> sint i" "sint i < sint (waitExit s)"
      using Suc.prems by simp_all
    have step: "sint (i + 1) = sint i + 1"
      using inv(2) sint_lt [of "waitExit s"] by (intro sint_inc) simp
    have "sint (waitExit s) = sint i + 1"
      using forced(2) inv(2) step by (simp add: word_sle_eq)
    then have "nat (sint (waitExit s) - sint i) \<le> Suc fuel"
      by simp
    moreover from forced have "fst (drain (Suc fuel) e k i s) = Returned"
      by (simp add: Let_def)
    ultimately show ?thesis using forced(2) by simp
  next
    case again
    from drain_steps_events [OF again, of fuel]
    obtain s4 where s4: "drain (Suc fuel) e k i s = drain fuel e (Suc k) (i + 1) s4"
      "waitExit s4 = waitExit s" "connCount s4 = ?c"
      by blast
    have shift: "polled e k s (Suc j) = polled e (Suc k) s4 j" for j
      using polled_connCount [of s4 "counter_run (serving e k) s" e "Suc k" j] s4(3) by simp
    have polls: "(\<exists>j<Suc fuel. polled e k s j <=s 0) = (\<exists>j<fuel. polled e (Suc k) s4 j <=s 0)"
      using again(1) shift by (simp add: Ex_less_Suc2)
    show ?thesis
    proof (cases "0 <s waitExit s")
      case False
      then have "fst (drain fuel e (Suc k) (i + 1) s4) =
          (if (\<exists>j<fuel. polled e (Suc k) s4 j <=s 0) \<or>
              (0 <s waitExit s4 \<and> nat (sint (waitExit s4) - sint (i + 1)) \<le> fuel)
           then Returned else OutOfFuel)"
        by (intro Suc.IH) (simp add: s4(2))
      then show ?thesis
        unfolding s4(1) polls using False by (simp add: s4(2))
    next
      case True
      with Suc.prems have inv: "0 \<le> sint i" "sint i < sint (waitExit s)" by simp_all
      have step: "sint (i + 1) = sint i + 1"
        using inv(2) sint_lt [of "waitExit s"] by (intro sint_inc) simp
      have less: "sint (i + 1) < sint (waitExit s)"
        using again(2) True by (simp add: word_sle_eq)
      have "fst (drain fuel e (Suc k) (i + 1) s4) =
          (if (\<exists>j<fuel. polled e (Suc k) s4 j <=s 0) \<or>
              (0 <s waitExit s4 \<and> nat (sint (waitExit s4) - sint (i + 1)) \<le> fuel)
           then Returned else OutOfFuel)"
        using inv step less by (intro Suc.IH) (simp add: s4(2))
      moreover have "(nat (sint (waitExit s) - sint i) \<le> Suc fuel)
                       = (nat (sint (waitExit s) - sint (i + 1)) \<le> fuel)"
        using step less by auto
      ultimately show ?thesis
        unfolding s4(1) polls using True by (simp add: s4(2))
    qed
  qed
qed

lemma sample_monitor_clean:
  "monitorMaster 5 sample_env_closing [FdListener 6] (Some 2) (Some 1)
     (init_state\<lparr>waitExit := 0\<rparr>) =
    (Returned,
     init_state\<lparr>waitExit := 0, connCount := 0, stopping := True,
       trace :=
         [NewFile 5, FileConn 5, Log LogWaiting, ConnRead,
          Log (LogDisconnected ''EOF''), StoreStopping True, CallOnStop 2,
          ReadConnCount 1, Sleep, Log (LogExiting 1 1),
          ReadConnCount 0, Log LogExitingNow, CallStop 1 True]\<rparr>)"
  by (simp add: monitorMaster_def monitor_stop_def eval_nat_numeral Let_def sample_env_closing_def
      sample_env_def init_state_def emit_def stateFd_def connCountInc_def connCountDec_def
      word_sle_eq word_sless_alt)

lemma sample_monitor_turning:
  "monitorMaster 3 sample_env [] None (Some 1) (init_state\<lparr>waitExit := 0\<rparr>) =
    (OutOfFuel,
     init_state\<lparr>waitExit := 0, connCount := 1, stopping := True,
       trace :=
         [NewFile 5, FileConn 5, Log LogWaiting, ConnRead,
          Log (LogDisconnected ''EOF''), StoreStopping True,
          ReadConnCount 2, Sleep, Log (LogExiting 2 1),
          ReadConnCount 1, Sleep, Log (LogExiting 1 2),
          ReadConnCount 1, Sleep, Log (LogExiting 1 3)]\<rparr>)"
  by (simp add: monitorMaster_def monitor_stop_def eval_nat_numeral Let_def
      sample_env_def init_state_def emit_def stateFd_def connCountInc_def connCountDec_def
      word_sle_eq word_sless_alt)

text \<open>
  C8. Once the read of the control connection has returned, \<open>monitorMaster\<close>, given the
  exit callback \<open>h\<close>, leaves the drain loop exactly when one of the loop's reads finds
  the counter \<open>\<le> 0\<close> or the positive deadline is reached, and then it returns and the
  last thing it does is to call \<open>h\<close> with \<open>true\<close>, right after the log line that
  announces the exit. It calls no exit callback before that: none while the loop is still
  turning, and exactly one in a run that returns. At that call the drain loop has ended:
  either its last read found the counter \<open>\<le> 0\<close>, or the deadline is positive, the loop
  has slept \<open>waitExit\<close> times and logged that it waited too long. Whenever
  \<open>monitorMaster\<close> returns at all, it has ended in this way.
\<close>

theorem monitorMaster_exit_callback:
  "(fileConn e stateFd = None \<and> connRead e = Some (n, rerr) \<longrightarrow>
      (if (\<exists>j<fuel. polled e 0 s j <=s 0) \<or>
          (0 <s waitExit s \<and> nat (sint (waitExit s)) \<le> fuel)
       then fst (monitorMaster fuel e listeners onStopHandler (Some h) s) = Returned \<and>
            (\<exists>evs. events_since s (snd (monitorMaster fuel e listeners onStopHandler (Some h) s))
                      = evs @ [Log LogExitingNow, CallStop h True] \<and>
               (\<forall>h' b. CallStop h' b \<notin> set evs) \<and>
               ((\<exists>evs0 c. evs = evs0 @ [ReadConnCount c] \<and> c <=s 0) \<or>
                (0 <s waitExit s \<and> int (sleeps evs) = sint (waitExit s) \<and>
                 (\<exists>evs0. evs = evs0 @ [Log (LogWaitingTooLong (waitExit s))]))))
       else fst (monitorMaster fuel e listeners onStopHandler (Some h) s) = OutOfFuel \<and>
            (\<forall>h' b. CallStop h' b \<notin>
               set (events_since s (snd (monitorMaster fuel e listeners onStopHandler (Some h) s)))))) \<and>
   (\<forall>s'. monitorMaster fuel e listeners onStopHandler (Some h) s = (Returned, s') \<longrightarrow>
      (\<exists>evs. events_since s s' = evs @ [Log LogExitingNow, CallStop h True] \<and>
         (\<forall>h' b. CallStop h' b \<notin> set evs) \<and>
         ((\<exists>evs0 c. evs = evs0 @ [ReadConnCount c] \<and> c <=s 0) \<or>
          (0 <s waitExit s \<and> int (sleeps evs) = sint (waitExit s) \<and>
           (\<exists>evs0. evs = evs0 @ [Log (LogWaitingTooLong (waitExit s))])))))"
  (is "(?read \<longrightarrow> (if ?ends then ?exit else ?turning)) \<and> ?partial")
proof (intro conjI impI allI)
  fix s'
  assume "monitorMaster fuel e listeners onStopHandler (Some h) s = (Returned, s')"
  then show "\<exists>evs. events_since s s' = evs @ [Log LogExitingNow, CallStop h True] \<and>
         (\<forall>h' b. CallStop h' b \<notin> set evs) \<and>
         ((\<exists>evs0 c. evs = evs0 @ [ReadConnCount c] \<and> c <=s 0) \<or>
          (0 <s waitExit s \<and> int (sleeps evs) = sint (waitExit s) \<and>
           (\<exists>evs0. evs = evs0 @ [Log (LogWaitingTooLong (waitExit s))])))"
    by (rule monitorMaster_returned)
next
  assume ?read
  then have conn: "fileConn e stateFd = None" and read: "connRead e = Some (n, rerr)"
    by simp_all
  let ?pre = "read_events rerr @ [StoreStopping True] @ stop_events listeners onStopHandler"
  let ?s5 = "s\<lparr>stopping := True, trace := trace s @ ?pre\<rparr>"
  let ?d = "drain fuel e 0 0 ?s5"
  let ?m = "monitorMaster fuel e listeners onStopHandler (Some h) s"
  have m: "?m =
      (if fst ?d = Returned
       then (Returned, emit (CallStop h True) (emit (Log LogExitingNow) (snd ?d)))
       else ?d)"
    by (subst monitorMaster_run [OF conn read]) simp
  have polls: "polled e 0 ?s5 j = polled e 0 s j" for j
    by (rule polled_connCount) simp
  have "0 <s waitExit ?s5 \<longrightarrow> 0 \<le> sint (0::go_int) \<and> sint (0::go_int) < sint (waitExit ?s5)"
    by (simp add: word_sless_alt)
  then have "fst ?d =
      (if (\<exists>j<fuel. polled e 0 ?s5 j <=s 0) \<or>
          (0 <s waitExit ?s5 \<and> nat (sint (waitExit ?s5) - sint (0::go_int)) \<le> fuel)
       then Returned else OutOfFuel)"
    by (rule drain_returns_iff)
  then have d: "fst ?d = (if ?ends then Returned else OutOfFuel)"
    unfolding polls by (simp del: drain.simps)
  show "if ?ends then ?exit else ?turning"
  proof (cases ?ends)
    case True
    with d have "fst ?d = Returned" by simp
    with m have fstm: "fst ?m = Returned" by (simp del: drain.simps)
    then have "?m = (Returned, snd ?m)" by (cases ?m) simp
    from monitorMaster_returned [OF this] fstm True
    show ?thesis by (simp del: drain.simps)
  next
    case False
    with d have out: "fst ?d = OutOfFuel" by simp
    with m have md: "?m = ?d" by (simp del: drain.simps)
    from drain_events [of fuel e 0 0 ?s5]
    obtain devs where devs: "trace (snd ?d) = trace ?s5 @ devs"
        "\<forall>ev \<in> set devs. (\<exists>c. ev = ReadConnCount c) \<or> ev = Sleep \<or> (\<exists>l. ev = Log l)"
      by auto
    have "trace (snd ?d) = trace s @ (?pre @ devs)"
      using devs(1) by simp
    then have ev: "events_since s (snd ?d) = ?pre @ devs"
      by (rule events_since_append)
    have "\<forall>h' b. CallStop h' b \<notin> set (?pre @ devs)"
      using devs(2) stop_events_no_CallStop [of _ _ listeners onStopHandler]
      by (cases rerr) (auto simp: read_events_def)
    with ev out md False show ?thesis by (simp del: drain.simps)
  qed
qed

theorem monitorMaster_exit_callback_witness:
  "fileConn sample_env stateFd = None \<and> connRead sample_env = Some (0, Some ''EOF'') \<and>
   fileConn sample_env_closing stateFd = None \<and>
   connRead sample_env_closing = Some (0, Some ''EOF'') \<and>
   polled sample_env_closing 0 (init_state\<lparr>waitExit := 0\<rparr>) 1 <=s 0 \<and>
   fst (monitorMaster 5 sample_env_closing [FdListener 6] (Some 2) (Some 1)
          (init_state\<lparr>waitExit := 0\<rparr>)) = Returned \<and>
   events_since (init_state\<lparr>waitExit := 0\<rparr>)
     (snd (monitorMaster 5 sample_env_closing [FdListener 6] (Some 2) (Some 1)
             (init_state\<lparr>waitExit := 0\<rparr>))) =
     [NewFile 5, FileConn 5, Log LogWaiting, ConnRead,
      Log (LogDisconnected ''EOF''), StoreStopping True, CallOnStop 2,
      ReadConnCount 1, Sleep, Log (LogExiting 1 1),
      ReadConnCount 0, Log LogExitingNow, CallStop 1 True] \<and>
   0 <s waitExit init_state \<and> nat (sint (waitExit init_state)) \<le> 10 \<and>
   fst (monitorMaster 10 sample_env [FdListener 6, FdListener 8] None (Some 1) init_state) = Returned \<and>
   drop 40 (events_since init_state
     (snd (monitorMaster 10 sample_env [FdListener 6, FdListener 8] None (Some 1) init_state))) =
     [Log (LogWaitingTooLong 10), Log LogExitingNow, CallStop 1 True] \<and>
   sleeps (events_since init_state
     (snd (monitorMaster 10 sample_env [FdListener 6, FdListener 8] None (Some 1) init_state))) = 10 \<and>
   fst (monitorMaster 3 sample_env [] None (Some 1) (init_state\<lparr>waitExit := 0\<rparr>))
     = OutOfFuel \<and>
   monitorMaster 3 sample_env [] None (Some 1) (init_state\<lparr>waitExit := 0\<rparr>) =
    (OutOfFuel,
     init_state\<lparr>waitExit := 0, connCount := 1, stopping := True,
       trace :=
         [NewFile 5, FileConn 5, Log LogWaiting, ConnRead,
          Log (LogDisconnected ''EOF''), StoreStopping True,
          ReadConnCount 2, Sleep, Log (LogExiting 2 1),
          ReadConnCount 1, Sleep, Log (LogExiting 1 2),
          ReadConnCount 1, Sleep, Log (LogExiting 1 3)]\<rparr>)"
proof -
  let ?idle = "init_state\<lparr>waitExit := 0\<rparr>"
  have conn: "fileConn sample_env stateFd = None"
    and read: "connRead sample_env = Some (0, Some ''EOF'')"
    by (simp_all add: sample_env_def)
  have conn': "fileConn sample_env_closing stateFd = None"
    and read': "connRead sample_env_closing = Some (0, Some ''EOF'')"
    by (simp_all add: sample_env_closing_def sample_env_def)
  have closed: "polled sample_env_closing 0 ?idle 1 <=s 0"
    by (simp add: sample_env_closing_def sample_env_def init_state_def
        connCountInc_def connCountDec_def)
  then have ends: "(\<exists>j<5. polled sample_env_closing 0 ?idle j <=s 0) \<or>
      (0 <s waitExit ?idle \<and> nat (sint (waitExit ?idle)) \<le> 5)"
    by (intro disjI1 exI [of _ 1]) simp
  have clean: "fst (monitorMaster 5 sample_env_closing [FdListener 6] (Some 2) (Some 1) ?idle)
                 = Returned"
    using monitorMaster_exit_callback [where e = sample_env_closing and n = 0
        and rerr = "Some ''EOF''" and fuel = 5 and s = ?idle and listeners = "[FdListener 6]"
        and onStopHandler = "Some 2" and h = 1] conn' read' ends
    by (simp only: simp_thms if_True)
  have ten: "0 <s waitExit init_state \<and> nat (sint (waitExit init_state)) \<le> 10"
    by (simp add: init_state_def word_sless_alt)
  then have ends10: "(\<exists>j<10. polled sample_env 0 init_state j <=s 0) \<or>
      (0 <s waitExit init_state \<and> nat (sint (waitExit init_state)) \<le> 10)"
    by (rule disjI2)
  have forced: "fst (monitorMaster 10 sample_env [FdListener 6, FdListener 8] None (Some 1) init_state)
                  = Returned"
    using monitorMaster_exit_callback [where e = sample_env and n = 0
        and rerr = "Some ''EOF''" and fuel = 10 and s = init_state
        and listeners = "[FdListener 6, FdListener 8]" and onStopHandler = None and h = 1]
      conn read ends10
    by (simp only: simp_thms if_True)
  have clean_events: "events_since ?idle
     (snd (monitorMaster 5 sample_env_closing [FdListener 6] (Some 2) (Some 1) ?idle)) =
     [NewFile 5, FileConn 5, Log LogWaiting, ConnRead,
      Log (LogDisconnected ''EOF''), StoreStopping True, CallOnStop 2,
      ReadConnCount 1, Sleep, Log (LogExiting 1 1),
      ReadConnCount 0, Log LogExitingNow, CallStop 1 True]"
    unfolding sample_monitor_clean by (simp add: events_since_def init_state_def)
  have forced_events: "drop 40 (events_since init_state
     (snd (monitorMaster 10 sample_env [FdListener 6, FdListener 8] None (Some 1) init_state))) =
     [Log (LogWaitingTooLong 10), Log LogExitingNow, CallStop 1 True]"
    "sleeps (events_since init_state
     (snd (monitorMaster 10 sample_env [FdListener 6, FdListener 8] None (Some 1) init_state))) = 10"
    unfolding sample_monitor by (simp_all add: events_since_def init_state_def sleeps_def)
  have open3: "\<not> ((\<exists>j<3. polled sample_env 0 ?idle j <=s 0) \<or>
      (0 <s waitExit ?idle \<and> nat (sint (waitExit ?idle)) \<le> 3))"
  proof -
    have p: "polled sample_env 0 ?idle 0 = 2" "polled sample_env 0 ?idle (Suc 0) = 1"
      "polled sample_env 0 ?idle (Suc (Suc 0)) = 1"
      by (simp_all add: sample_env_def init_state_def connCountInc_def connCountDec_def)
    have "\<not> polled sample_env 0 ?idle j <=s 0" if "j < 3" for j
    proof -
      from that have "j = 0 \<or> j = Suc 0 \<or> j = Suc (Suc 0)" by arith
      then show ?thesis using p by (auto simp: word_sle_eq)
    qed
    moreover have "\<not> 0 <s waitExit ?idle" by simp
    ultimately show ?thesis by blast
  qed
  have turning: "fst (monitorMaster 3 sample_env [] None (Some 1) ?idle) = OutOfFuel"
    using monitorMaster_exit_callback [where e = sample_env and n = 0
        and rerr = "Some ''EOF''" and fuel = 3 and s = ?idle and listeners = "[]"
        and onStopHandler = None and h = 1] conn read open3
    by (simp only: simp_thms if_False)
  from conn read conn' read' closed clean clean_events ten forced forced_events
    turning sample_monitor_turning
  show ?thesis by (intro conjI) (erule conjunct1 conjunct2 | assumption)+
qed

section \<open>The hooks\<close>

subsection \<open>Nothing reads the registered hooks\<close>

lemma set_hooks_emit: "emit ev (set_hooks a b c s) = set_hooks a b c (emit ev s)"
  by (simp add: emit_def set_hooks_def)

lemma set_hooks_counter_step: "counter_step (set_hooks a b c s) x = set_hooks a b c (counter_step s x)"
  by (cases x) (simp_all add: connCountInc_def connCountDec_def set_hooks_def)

lemma set_hooks_counter_run: "counter_run ops (set_hooks a b c s) = set_hooks a b c (counter_run ops s)"
  by (induction ops arbitrary: s) (simp_all add: set_hooks_counter_step)

lemma set_hooks_parseArgs_loop:
  "parseArgs_loop e args (set_hooks a b c s) = set_hooks a b c (parseArgs_loop e args s)"
proof (induction e args s rule: parseArgs_loop.induct)
  case (1 e s)
  show ?case by simp
next
  case (2 e x rest s)
  have upd: "(set_hooks a b c s)\<lparr>listenFdCount := n\<rparr> = set_hooks a b c (s\<lparr>listenFdCount := n\<rparr>)"
    "(set_hooks a b c s)\<lparr>confPath := v\<rparr> = set_hooks a b c (s\<lparr>confPath := v\<rparr>)"
    "(set_hooks a b c s)\<lparr>sockType := v\<rparr> = set_hooks a b c (s\<lparr>sockType := v\<rparr>)"
    "(set_hooks a b c s)\<lparr>services := v\<rparr> = set_hooks a b c (s\<lparr>services := v\<rparr>)"
    "(set_hooks a b c s)\<lparr>privilege := p\<rparr> = set_hooks a b c (s\<lparr>privilege := p\<rparr>)"
    "(set_hooks a b c s)\<lparr>verbose := p\<rparr> = set_hooks a b c (s\<lparr>verbose := p\<rparr>)"
    "(set_hooks a b c s)\<lparr>chrootOn := p\<rparr> = set_hooks a b c (s\<lparr>chrootOn := p\<rparr>)"
    for n v p
    by (simp_all add: set_hooks_def)
  show ?case
  proof (cases rest)
    case Nil
    with 2 show ?thesis by (simp add: upd)
  next
    case (Cons v rest')
    with 2 show ?thesis by (simp add: Let_def upd)
  qed
qed

lemma set_hooks_fields [simp]:
  "listenFdCount (set_hooks a b c s) = listenFdCount s"
  "confPath (set_hooks a b c s) = confPath s"
  "sockType (set_hooks a b c s) = sockType s"
  "services (set_hooks a b c s) = services s"
  "privilege (set_hooks a b c s) = privilege s"
  "chrootOn (set_hooks a b c s) = chrootOn s"
  "connCount (set_hooks a b c s) = connCount s"
  "waitExit (set_hooks a b c s) = waitExit s"
  "prepareCalled (set_hooks a b c s) = prepareCalled s"
  "logPath (set_hooks a b c s) = logPath s"
  "username (set_hooks a b c s) = username s"
  "masterArgs (set_hooks a b c s) = masterArgs s"
  "rootDir (set_hooks a b c s) = rootDir s"
  "trace (set_hooks a b c s) = trace s"
  by (simp_all add: set_hooks_def)

lemma set_hooks_parseArgs: "parseArgs e (set_hooks a b c s) = set_hooks a b c (parseArgs e s)"
  by (simp add: parseArgs_def Let_def set_hooks_emit set_hooks_parseArgs_loop)

lemma set_hooks_open_log: "open_log e (set_hooks a b c s) = set_hooks a b c (open_log e s)"
  by (simp add: open_log_def set_hooks_emit split: option.splits)

lemma set_hooks_Prepare: "Prepare e (set_hooks a b c s) = set_hooks a b c (Prepare e s)"
proof -
  have upd: "(set_hooks a b c t)\<lparr>prepareCalled := p\<rparr> = set_hooks a b c (t\<lparr>prepareCalled := p\<rparr>)"
    "(set_hooks a b c t)\<lparr>logPath := v\<rparr> = set_hooks a b c (t\<lparr>logPath := v\<rparr>)"
    "(set_hooks a b c t)\<lparr>masterArgs := v\<rparr> = set_hooks a b c (t\<lparr>masterArgs := v\<rparr>)"
    "(set_hooks a b c t)\<lparr>username := v\<rparr> = set_hooks a b c (t\<lparr>username := v\<rparr>)"
    "(set_hooks a b c t)\<lparr>rootDir := v\<rparr> = set_hooks a b c (t\<lparr>rootDir := v\<rparr>)"
    for t p v
    by (simp_all add: set_hooks_def)
  show ?thesis
    by (simp add: Prepare_def Let_def upd set_hooks_parseArgs set_hooks_emit set_hooks_open_log)
qed

lemma set_hooks_chroot: "chroot e (set_hooks a b c s) = set_hooks a b c (chroot e s)"
proof -
  have gid: "chroot_setgid e u (set_hooks a b c t) = set_hooks a b c (chroot_setgid e u t)" for u t
    by (simp add: chroot_setgid_def set_hooks_emit split: prod.splits option.splits)
  have uid: "chroot_setuid e u (set_hooks a b c t) = set_hooks a b c (chroot_setuid e u t)" for u t
    by (simp add: chroot_setuid_def set_hooks_emit split: prod.splits option.splits)
  have ident: "chroot_identity e (set_hooks a b c t) = set_hooks a b c (chroot_identity e t)" for t
    by (simp add: chroot_identity_def set_hooks_emit gid uid split: sum.splits)
  have conf: "chroot_confine e (set_hooks a b c t) = set_hooks a b c (chroot_confine e t)" for t
    by (simp add: chroot_confine_def Let_def set_hooks_emit split: option.splits)
  show ?thesis
    by (simp add: chroot_def ident conf)
qed


lemma set_hooks_getListenersByAddrs_loop:
  "getListenersByAddrs_loop e addrs acc (set_hooks a b c s) =
     (case getListenersByAddrs_loop e addrs acc s of
        Inl (msg, s') \<Rightarrow> Inl (msg, set_hooks a b c s')
      | Inr (ls, s') \<Rightarrow> Inr (ls, set_hooks a b c s'))"
  by (induction addrs arbitrary: acc s) (simp_all add: set_hooks_emit split: option.splits)

lemma set_hooks_getListeners_loop:
  "getListeners_loop e fd acc (set_hooks a b c s) =
     (fst (getListeners_loop e fd acc s), set_hooks a b c (snd (getListeners_loop e fd acc s)))"
proof (induction e fd acc s rule: getListeners_loop.induct)
  case (1 e fd acc s)
  show ?case
  proof (cases "fd <s listenFdStart + listenFdCount s")
    case False
    then show ?thesis
      by (subst (1 2 3) getListeners_loop.simps) simp
  next
    case True
    show ?thesis
    proof (cases "fileListener e fd")
      case None
      from "1.IH"(1) [OF True refl None] True None show ?thesis
        by (subst (1 2 3) getListeners_loop.simps) (simp add: Let_def set_hooks_emit)
    next
      case (Some err)
      from "1.IH"(2) [OF True refl Some] True Some show ?thesis
        by (subst (1 2 3) getListeners_loop.simps) (simp add: Let_def set_hooks_emit)
    qed
  qed
qed

lemma set_hooks_drain:
  "drain fuel e k i (set_hooks a b c s) =
     (fst (drain fuel e k i s), set_hooks a b c (snd (drain fuel e k i s)))"
proof (induction fuel arbitrary: k i s)
  case 0
  show ?case by simp
next
  case (Suc fuel)
  show ?case
    by (simp add: Let_def set_hooks_counter_run set_hooks_emit Suc.IH)
qed

lemma set_hooks_monitorMaster:
  "monitorMaster fuel e listeners onStopHandler stopHandler (set_hooks a b c s) =
     (fst (monitorMaster fuel e listeners onStopHandler stopHandler s),
      set_hooks a b c (snd (monitorMaster fuel e listeners onStopHandler stopHandler s)))"
proof -
  have stop: "monitor_stop listeners onStopHandler (set_hooks a b c t)
                = set_hooks a b c (monitor_stop listeners onStopHandler t)" for t
    by (simp add: monitor_stop_events set_hooks_def)
  have upd: "(set_hooks a b c t)\<lparr>stopping := True\<rparr> = set_hooks a b c (t\<lparr>stopping := True\<rparr>)" for t
    by (simp add: set_hooks_def)
  show ?thesis
    unfolding monitorMaster_def Let_def
    by (simp add: set_hooks_emit upd stop set_hooks_drain
          split: option.splits prod.splits outcome.splits del: drain.simps)
qed

lemma set_hooks_exec:
  "\<exists>a' b' c'. exec e (set_hooks a b c s) call = set_hooks a' b' c' (exec e s call)"
proof (cases call)
  case DoPrepare
  then show ?thesis using set_hooks_Prepare by auto
next
  case DoParseArgs
  then show ?thesis using set_hooks_parseArgs by auto
next
  case DoChroot
  then show ?thesis using set_hooks_chroot by auto
next
  case (DoGetListenersByAddrs addrs)
  then show ?thesis
    by (auto simp: getListenersByAddrs_def set_hooks_getListenersByAddrs_loop split: sum.splits)
next
  case DoGetListeners
  then show ?thesis
    by (auto simp: getListeners_def set_hooks_getListeners_loop)
next
  case (DoMonitorMaster fuel listeners onStopHandler stopHandler)
  then show ?thesis
    by (auto simp: set_hooks_monitorMaster)
next
  case DoConnCountInc
  then have "exec e (set_hooks a b c s) call = set_hooks a b c (exec e s call)"
    by (simp add: connCountInc_def set_hooks_def)
  then show ?thesis by blast
next
  case DoConnCountDec
  then have "exec e (set_hooks a b c s) call = set_hooks a b c (exec e s call)"
    by (simp add: connCountDec_def set_hooks_def)
  then show ?thesis by blast
next
  case DoConnCountCur
  then show ?thesis by auto
next
  case (DoOnPreJail h)
  then have "exec e (set_hooks a b c s) call = set_hooks h b c (exec e s call)"
    by (simp add: OnPreJail_def set_hooks_def)
  then show ?thesis by blast
next
  case (DoOnInit h)
  then have "exec e (set_hooks a b c s) call = set_hooks a h c (exec e s call)"
    by (simp add: OnInit_def set_hooks_def)
  then show ?thesis by blast
next
  case (DoOnExit h)
  then have "exec e (set_hooks a b c s) call = set_hooks a b h (exec e s call)"
    by (simp add: OnExit_def set_hooks_def)
  then show ?thesis by blast
qed

lemma set_hooks_twice [simp]: "set_hooks a b c (set_hooks a' b' c' s) = set_hooks a b c s"
  by (simp add: set_hooks_def)

lemma set_hooks_self: "set_hooks (preJailHandler s) (initHandler s) (exitHandler s) s = s"
  by (simp add: set_hooks_def)

lemma forget_exec:
  assumes "set_hooks None None None s = set_hooks None None None t"
  shows "set_hooks None None None (exec e s call) = set_hooks None None None (exec e t call)"
proof -
  let ?u = "set_hooks None None None s"
  have s: "s = set_hooks (preJailHandler s) (initHandler s) (exitHandler s) ?u"
    by (simp add: set_hooks_self)
  have t: "t = set_hooks (preJailHandler t) (initHandler t) (exitHandler t) ?u"
    unfolding assms by (simp add: set_hooks_self)
  obtain a b c where "exec e (set_hooks (preJailHandler s) (initHandler s) (exitHandler s) ?u) call
                        = set_hooks a b c (exec e ?u call)"
    using set_hooks_exec by blast
  with s have 1: "exec e s call = set_hooks a b c (exec e ?u call)" by simp
  obtain a' b' c' where "exec e (set_hooks (preJailHandler t) (initHandler t) (exitHandler t) ?u) call
                        = set_hooks a' b' c' (exec e ?u call)"
    using set_hooks_exec by blast
  with t have 2: "exec e t call = set_hooks a' b' c' (exec e ?u call)" by simp
  show ?thesis unfolding 1 2 by simp
qed

lemma forget_run:
  "set_hooks None None None s = set_hooks None None None t \<Longrightarrow>
   set_hooks None None None (run e calls s) = set_hooks None None None (run e calls t)"
proof (induction calls arbitrary: s t)
  case Nil
  then show ?case by (simp add: run_def)
next
  case (Cons call calls)
  from Cons.prems have "set_hooks None None None (exec e s call) = set_hooks None None None (exec e t call)"
    by (rule forget_exec)
  from Cons.IH [OF this] show ?case by (simp add: run_def)
qed

subsection \<open>The callbacks that are called\<close>

lemma hooks_called_Nil [simp]: "hooks_called [] = []"
  by (simp add: hooks_called_def map_filter_simps)

lemma hooks_called_Cons [simp]:
  "hooks_called (ev # evs) =
     (case called ev of None \<Rightarrow> hooks_called evs | Some h \<Rightarrow> h # hooks_called evs)"
  unfolding hooks_called_def by (simp add: map_filter_simps)

lemma hooks_called_append [simp]:
  "hooks_called (evs @ evs') = hooks_called evs @ hooks_called evs'"
  by (induction evs) (simp_all split: option.splits)

lemma hooks_called_drain:
  "\<forall>ev \<in> set evs. (\<exists>c. ev = ReadConnCount c) \<or> ev = Sleep \<or> (\<exists>l. ev = Log l) \<Longrightarrow>
   hooks_called evs = []"
proof (induction evs)
  case Nil
  show ?case by simp
next
  case (Cons ev evs)
  from Cons.prems have "(\<exists>c. ev = ReadConnCount c) \<or> ev = Sleep \<or> (\<exists>l. ev = Log l)"
    by simp
  then have "called ev = None"
    by (elim disjE exE) simp_all
  moreover from Cons have "hooks_called evs = []"
    by simp
  ultimately show ?case by simp
qed

lemma hooks_called_stop_events:
  "hooks_called (stop_events listeners onStopHandler) =
     (case onStopHandler of Some h \<Rightarrow> [h] | None \<Rightarrow> [])"
proof (cases onStopHandler)
  case None
  have "hooks_called (concat (map (\<lambda>ln. [Log LogClosingListener, ListenerClose ln]) listeners)) = []"
    by (induction listeners) simp_all
  with None show ?thesis by (simp add: stop_events_def)
next
  case (Some h)
  then show ?thesis by (simp add: stop_events_def)
qed

lemma hooks_called_read_events: "hooks_called (read_events rerr) = []"
  by (cases rerr) (simp_all add: read_events_def)

lemma quiet_Prepare: "\<exists>evs. trace (Prepare e s) = trace s @ evs \<and> hooks_called evs = []"
proof (cases "prepareCalled s")
  case True
  then show ?thesis by (simp add: Prepare_def)
next
  case False
  let ?s1 = "parseArgs e (s\<lparr>prepareCalled := True\<rparr>)"
  let ?s3 = "(emit (ConfGet ''master_log'') (emit (InitConfig (confPath ?s1)) ?s1))
               \<lparr>logPath := confGet e (confPath ?s1) ''master_log''\<rparr>"
  have "\<exists>evs. trace (open_log e ?s3) = trace ?s3 @ evs \<and> hooks_called evs = []"
    by (simp add: open_log_def split: option.splits)
  then obtain evs where evs: "trace (open_log e ?s3) = trace ?s3 @ evs" "hooks_called evs = []"
    by blast
  have s1: "\<exists>l. trace ?s1 = trace s @ [ReadArgs, Log l]"
    by (simp add: parseArgs_def Let_def parseArgs_loop_keeps)
  then obtain l where l: "trace ?s1 = trace s @ [ReadArgs, Log l]" by blast
  have "\<exists>l'. trace (Prepare e s) = trace s @ ([ReadArgs, Log l, InitConfig (confPath ?s1), ConfGet ''master_log''] @
      evs @ [ConfGet ''master_args'', ConfGet ''fiber_owner'', ConfGet ''fiber_queue_dir'', Log l'])"
    using False evs(1) l by (simp add: Prepare_def Let_def)
  then obtain l' where "trace (Prepare e s) = trace s @ ([ReadArgs, Log l, InitConfig (confPath ?s1), ConfGet ''master_log''] @
      evs @ [ConfGet ''master_args'', ConfGet ''fiber_owner'', ConfGet ''fiber_queue_dir'', Log l'])"
    by blast
  moreover have "hooks_called ([ReadArgs, Log l, InitConfig (confPath ?s1), ConfGet ''master_log''] @
      evs @ [ConfGet ''master_args'', ConfGet ''fiber_owner'', ConfGet ''fiber_queue_dir'', Log l']) = []"
    using evs(2) by simp
  ultimately show ?thesis by blast
qed

lemma quiet_parseArgs: "\<exists>evs. trace (parseArgs e s) = trace s @ evs \<and> hooks_called evs = []"
proof -
  have "\<exists>l. trace (parseArgs e s) = trace s @ [ReadArgs, Log l]"
    by (simp add: parseArgs_def Let_def parseArgs_loop_keeps)
  then obtain l where "trace (parseArgs e s) = trace s @ [ReadArgs, Log l]" by blast
  moreover have "hooks_called [ReadArgs, Log l] = []" by simp
  ultimately show ?thesis by blast
qed

lemma quiet_chroot: "\<exists>evs. trace (chroot e s) = trace s @ evs \<and> hooks_called evs = []"
proof -
  have gid: "\<exists>evs. trace (chroot_setgid e u t) = trace t @ evs \<and> hooks_called evs = []" for u t
    by (simp add: chroot_setgid_def split: prod.splits option.splits)
  have uid: "\<exists>evs. trace (chroot_setuid e u t) = trace t @ evs \<and> hooks_called evs = []" for u t
    by (simp add: chroot_setuid_def split: prod.splits option.splits)
  have ident: "\<exists>evs. trace (chroot_identity e s) = trace s @ evs \<and> hooks_called evs = []"
  proof (cases "userLookup e (username s)")
    case (Inl err)
    then show ?thesis by (simp add: chroot_identity_def)
  next
    case (Inr u)
    let ?s0 = "emit (UserLookup (username s)) s"
    obtain G where G: "trace (chroot_setgid e u ?s0) = trace ?s0 @ G" "hooks_called G = []"
      using gid by blast
    obtain U where U: "trace (chroot_setuid e u (chroot_setgid e u ?s0))
                         = trace (chroot_setgid e u ?s0) @ U" "hooks_called U = []"
      using uid by blast
    have "trace (chroot_identity e s) = trace s @ ([UserLookup (username s)] @ G @ U)"
      using Inr G(1) U(1) by (simp add: chroot_identity_def)
    moreover have "hooks_called ([UserLookup (username s)] @ G @ U) = []"
      using G(2) U(2) by simp
    ultimately show ?thesis by blast
  qed
  have conf: "\<exists>evs. trace (chroot_confine e t) = trace t @ evs \<and> hooks_called evs = []" for t
    by (simp add: chroot_confine_def Let_def split: option.splits)
  obtain I where I: "trace (chroot_identity e s) = trace s @ I" "hooks_called I = []"
    using ident by blast
  obtain C where C: "trace (chroot_confine e (chroot_identity e s)) = trace (chroot_identity e s) @ C"
    "hooks_called C = []"
    using conf by blast
  show ?thesis
  proof (cases "length (masterArgs s) = 0 \<or> \<not> privilege s \<or> length (username s) = 0")
    case True
    then show ?thesis by (simp add: chroot_def)
  next
    case False
    then have "trace (chroot e s) = trace s @ (I @ C)"
      using I(1) C(1) by (simp add: chroot_def)
    moreover have "hooks_called (I @ C) = []"
      using I(2) C(2) by simp
    ultimately show ?thesis by blast
  qed
qed


lemma quiet_getListenersByAddrs_loop:
  "\<exists>evs. hooks_called evs = [] \<and>
     (case getListenersByAddrs_loop e addrs acc s of
        Inl (msg, s') \<Rightarrow> trace s' = trace s @ evs
      | Inr (ls, s') \<Rightarrow> trace s' = trace s @ evs)"
proof (induction addrs arbitrary: acc s)
  case Nil
  show ?case by simp
next
  case (Cons addr addrs)
  show ?case
  proof (cases "netListen e acc addr")
    case (Some err)
    then have "hooks_called [NetListen addr] = [] \<and>
        (case getListenersByAddrs_loop e (addr # addrs) acc s of
           Inl (msg, s') \<Rightarrow> trace s' = trace s @ [NetListen addr]
         | Inr (ls, s') \<Rightarrow> trace s' = trace s @ [NetListen addr])"
      by simp
    then show ?thesis by blast
  next
    case None
    from Cons.IH
    obtain evs where evs: "hooks_called evs = []"
      "case getListenersByAddrs_loop e addrs (acc @ [AddrListener addr]) (emit (NetListen addr) s) of
         Inl (msg, s') \<Rightarrow> trace s' = trace (emit (NetListen addr) s) @ evs
       | Inr (ls, s') \<Rightarrow> trace s' = trace (emit (NetListen addr) s) @ evs"
      by blast
    have "hooks_called (NetListen addr # evs) = [] \<and>
        (case getListenersByAddrs_loop e (addr # addrs) acc s of
           Inl (msg, s') \<Rightarrow> trace s' = trace s @ NetListen addr # evs
         | Inr (ls, s') \<Rightarrow> trace s' = trace s @ NetListen addr # evs)"
      using None evs by (simp split: sum.splits prod.splits)
    then show ?thesis by blast
  qed
qed

lemma quiet_getListeners_loop:
  "\<exists>evs. trace (snd (getListeners_loop e fd acc s)) = trace s @ evs \<and> hooks_called evs = []"
proof (induction e fd acc s rule: getListeners_loop.induct)
  case (1 e fd acc s)
  show ?case
  proof (cases "fd <s listenFdStart + listenFdCount s")
    case False
    then show ?thesis
      by (subst getListeners_loop.simps) simp
  next
    case True
    let ?s1 = "emit (FileListener fd) (emit (NewFile fd) s)"
    show ?thesis
    proof (cases "fileListener e fd")
      case None
      let ?s' = "emit (Log (LogAddFd fd)) ?s1"
      have eq: "getListeners_loop e fd acc s = getListeners_loop e (fd + 1) (acc @ [FdListener fd]) ?s'"
        using True None by (subst getListeners_loop.simps) (simp add: Let_def)
      from "1.IH"(1) [OF True refl None]
      obtain evs where evs:
        "trace (snd (getListeners_loop e (fd + 1) (acc @ [FdListener fd]) ?s')) = trace ?s' @ evs"
        "hooks_called evs = []"
        by blast
      have "trace (snd (getListeners_loop e fd acc s)) =
              trace s @ ([NewFile fd, FileListener fd, Log (LogAddFd fd)] @ evs)"
        unfolding eq using evs(1) by simp
      moreover have "hooks_called ([NewFile fd, FileListener fd, Log (LogAddFd fd)] @ evs) = []"
        using evs(2) by simp
      ultimately show ?thesis by blast
    next
      case (Some err)
      let ?s' = "emit (Log (LogFileListenerError err fd)) (emit (FileClose fd) ?s1)"
      have eq: "getListeners_loop e fd acc s = getListeners_loop e (fd + 1) acc ?s'"
        using True Some by (subst getListeners_loop.simps) (simp add: Let_def)
      from "1.IH"(2) [OF True refl Some]
      obtain evs where evs:
        "trace (snd (getListeners_loop e (fd + 1) acc ?s')) = trace ?s' @ evs"
        "hooks_called evs = []"
        by blast
      have "trace (snd (getListeners_loop e fd acc s)) =
              trace s @ ([NewFile fd, FileListener fd, FileClose fd,
                          Log (LogFileListenerError err fd)] @ evs)"
        unfolding eq using evs(1) by simp
      moreover have "hooks_called ([NewFile fd, FileListener fd, FileClose fd,
                          Log (LogFileListenerError err fd)] @ evs) = []"
        using evs(2) by simp
      ultimately show ?thesis by blast
    qed
  qed
qed


lemma quiet_monitorMaster:
  "\<exists>evs. trace (snd (monitorMaster fuel e listeners onStopHandler stopHandler s)) = trace s @ evs \<and>
     set (hooks_called evs) \<subseteq> set (passed (DoMonitorMaster fuel listeners onStopHandler stopHandler))"
proof (cases "fileConn e stateFd")
  case (Some err)
  then have "trace (snd (monitorMaster fuel e listeners onStopHandler stopHandler s)) =
      trace s @ [NewFile stateFd, FileConn stateFd, Log (LogFileConnError err), Log LogWaiting]"
    by (simp add: monitorMaster_def Let_def)
  moreover have "hooks_called [NewFile stateFd, FileConn stateFd, Log (LogFileConnError err), Log LogWaiting] = []"
    by simp
  ultimately show ?thesis by fastforce
next
  case conn: None
  show ?thesis
  proof (cases "connRead e")
    case None
    with conn have "trace (snd (monitorMaster fuel e listeners onStopHandler stopHandler s)) =
        trace s @ [NewFile stateFd, FileConn stateFd, Log LogWaiting, ConnRead]"
      by (simp add: monitorMaster_def Let_def)
    moreover have "hooks_called [NewFile stateFd, FileConn stateFd, Log LogWaiting, ConnRead] = []"
      by simp
    ultimately show ?thesis by fastforce
  next
    case (Some r)
    obtain n rerr where read: "connRead e = Some (n, rerr)"
      using Some by (cases r) simp
    let ?pre = "read_events rerr @ [StoreStopping True] @ stop_events listeners onStopHandler"
    let ?s5 = "s\<lparr>stopping := True, trace := trace s @ ?pre\<rparr>"
    let ?d = "drain fuel e 0 0 ?s5"
    let ?m = "monitorMaster fuel e listeners onStopHandler stopHandler s"
    have m: "?m =
        (if fst ?d = Returned then
           (case stopHandler of
              None \<Rightarrow> (Panicked nil_dereference, emit (Log LogExitingNow) (snd ?d))
            | Some h \<Rightarrow> (Returned, emit (CallStop h True) (emit (Log LogExitingNow) (snd ?d))))
         else ?d)"
      by (rule monitorMaster_run [OF conn read])
    from drain_events [of fuel e 0 0 ?s5]
    obtain devs where devs: "trace (snd ?d) = trace ?s5 @ devs"
        "\<forall>ev \<in> set devs. (\<exists>c. ev = ReadConnCount c) \<or> ev = Sleep \<or> (\<exists>l. ev = Log l)"
      by auto
    have quiet: "hooks_called devs = []"
      using devs(2) by (rule hooks_called_drain)
    define tail where "tail =
        (if fst ?d = Returned then
           (case stopHandler of
              None \<Rightarrow> [Log LogExitingNow]
            | Some h \<Rightarrow> [Log LogExitingNow, CallStop h True])
         else [])"
    have "trace (snd ?m) = trace (snd ?d) @ tail"
      unfolding m tail_def by (cases stopHandler) (simp_all del: drain.simps)
    then have tr: "trace (snd ?m) = trace s @ (?pre @ devs @ tail)"
      using devs(1) by simp
    define evs where "evs = ?pre @ devs @ tail"
    have tl: "set (hooks_called tail) \<subseteq> (case stopHandler of Some h \<Rightarrow> {h} | None \<Rightarrow> {})"
      unfolding tail_def by (cases stopHandler) (simp_all del: drain.simps)
    have hc: "hooks_called evs =
        (case onStopHandler of Some h \<Rightarrow> [h] | None \<Rightarrow> []) @ hooks_called tail"
      unfolding evs_def
      by (simp add: quiet hooks_called_read_events hooks_called_stop_events)
    have "set (hooks_called evs) \<subseteq>
        set (passed (DoMonitorMaster fuel listeners onStopHandler stopHandler))"
      unfolding hc using tl by (cases onStopHandler; cases stopHandler) auto
    moreover have "trace (snd ?m) = trace s @ evs"
      unfolding evs_def by (rule tr)
    ultimately show ?thesis by blast
  qed
qed

lemma quiet_exec:
  "\<exists>evs. trace (exec e s call) = trace s @ evs \<and> set (hooks_called evs) \<subseteq> set (passed call)"
proof (cases call)
  case DoPrepare
  then show ?thesis using quiet_Prepare [where e = e and s = s] by auto
next
  case DoParseArgs
  then show ?thesis using quiet_parseArgs [where e = e and s = s] by auto
next
  case DoChroot
  then show ?thesis using quiet_chroot [where e = e and s = s] by auto
next
  case (DoGetListenersByAddrs addrs)
  then show ?thesis
    using quiet_getListenersByAddrs_loop [where e = e and addrs = addrs and acc = "[]" and s = s]
    by (auto simp: getListenersByAddrs_def split: sum.splits)
next
  case DoGetListeners
  then show ?thesis
    using quiet_getListeners_loop [where e = e and fd = listenFdStart and acc = "[]" and s = s]
    by (auto simp: getListeners_def)
next
  case (DoMonitorMaster fuel listeners onStopHandler stopHandler)
  then show ?thesis
    using quiet_monitorMaster [where fuel = fuel and e = e and listeners = listeners
        and onStopHandler = onStopHandler and stopHandler = stopHandler and s = s] by simp
next
  case DoConnCountInc
  then show ?thesis by (simp add: connCountInc_def)
next
  case DoConnCountDec
  then show ?thesis by (simp add: connCountDec_def)
next
  case DoConnCountCur
  then show ?thesis by simp
next
  case (DoOnPreJail h)
  then show ?thesis by (simp add: OnPreJail_def)
next
  case (DoOnInit h)
  then show ?thesis by (simp add: OnInit_def)
next
  case (DoOnExit h)
  then show ?thesis by (simp add: OnExit_def)
qed

lemma quiet_run:
  "\<exists>evs. trace (run e calls s) = trace s @ evs \<and>
     set (hooks_called evs) \<subseteq> set (concat (map passed calls))"
proof (induction calls arbitrary: s)
  case Nil
  show ?case by (simp add: run_def)
next
  case (Cons call calls)
  obtain evs1 where e1: "trace (exec e s call) = trace s @ evs1"
    "set (hooks_called evs1) \<subseteq> set (passed call)"
    using quiet_exec by blast
  obtain evs2 where e2: "trace (run e calls (exec e s call)) = trace (exec e s call) @ evs2"
    "set (hooks_called evs2) \<subseteq> set (concat (map passed calls))"
    using Cons.IH by blast
  have "run e (call # calls) s = run e calls (exec e s call)"
    by (simp add: run_def)
  then have "trace (run e (call # calls) s) = trace s @ (evs1 @ evs2)"
    using e1(1) e2(1) by simp
  moreover have "set (hooks_called (evs1 @ evs2)) \<subseteq> set (concat (map passed (call # calls)))"
    using e1(2) e2(2) by auto
  ultimately show ?case by blast
qed

text \<open>
  C9, as the code has it. \<open>OnPreJail\<close>, \<open>OnInit\<close> and \<open>OnExit\<close> store the callback they
  are given. Whatever sequence of the file's functions runs, what is stored in the three
  variables changes nothing but these variables: every other variable and every event is
  the same (the two runs agree once the three variables are overwritten by \<open>nil\<close>). So no
  function calls, or even reads, the pre-jail hook or the init hook, and none calls the
  registered exit hook either. The only callbacks called in a run are arguments of
  \<open>monitorMaster\<close>: its stop callback and, when the drain loop has ended, its
  \<open>stopHandler\<close>.
\<close>

theorem registered_hooks_never_called:
  "preJailHandler (OnPreJail h s) = h \<and> initHandler (OnInit h s) = h \<and>
   exitHandler (OnExit h s) = h \<and>
   set_hooks None None None (run e calls (set_hooks a b c s))
     = set_hooks None None None (run e calls s) \<and>
   (\<exists>evs. trace (run e calls s) = trace s @ evs \<and>
      set (hooks_called evs) \<subseteq> set (concat (map passed calls)))"
proof -
  have "set_hooks None None None (set_hooks a b c s) = set_hooks None None None s"
    by simp
  then have "set_hooks None None None (run e calls (set_hooks a b c s))
               = set_hooks None None None (run e calls s)"
    by (rule forget_run)
  moreover have "\<exists>evs. trace (run e calls s) = trace s @ evs \<and>
      set (hooks_called evs) \<subseteq> set (concat (map passed calls))"
    by (rule quiet_run)
  ultimately show ?thesis
    by (simp add: OnPreJail_def OnInit_def OnExit_def)
qed

text \<open>
  C9 as the specification states it has the registered exit hook called by the drain
  state machine. With the exit hook 7 registered by \<open>OnExit\<close>, \<open>monitorMaster\<close> drains and
  returns, and the only callback called is its argument \<open>stopHandler\<close>, here 1: the
  hook 7 is still registered and was never called.
\<close>

theorem registered_exit_hook_not_called:
  "exitHandler (run sample_env
      [DoOnExit (Some 7), DoMonitorMaster 10 [FdListener 6, FdListener 8] None (Some 1)]
      init_state) = Some 7 \<and>
   fst (monitorMaster 10 sample_env [FdListener 6, FdListener 8] None (Some 1)
          (OnExit (Some 7) init_state)) = Returned \<and>
   hooks_called (trace (run sample_env
      [DoOnExit (Some 7), DoMonitorMaster 10 [FdListener 6, FdListener 8] None (Some 1)]
      init_state)) = [1]"
proof -
  have reg: "OnExit (Some 7) init_state = set_hooks None None (Some 7) init_state"
    by (simp add: OnExit_def set_hooks_def init_state_def)
  have m: "monitorMaster 10 sample_env [FdListener 6, FdListener 8] None (Some 1)
             (OnExit (Some 7) init_state) =
           (Returned,
            set_hooks None None (Some 7)
              (snd (monitorMaster 10 sample_env [FdListener 6, FdListener 8] None (Some 1) init_state)))"
    unfolding reg set_hooks_monitorMaster by (simp only: sample_monitor fst_conv)
  have r: "run sample_env
      [DoOnExit (Some 7), DoMonitorMaster 10 [FdListener 6, FdListener 8] None (Some 1)]
      init_state =
      snd (monitorMaster 10 sample_env [FdListener 6, FdListener 8] None (Some 1)
             (OnExit (Some 7) init_state))"
    by (simp only: run_def foldl.simps exec.simps)
  show ?thesis
    unfolding r m sample_monitor
    by (simp add: set_hooks_def init_state_def)
qed

end
